theory Spec2Isabelle
  imports Complex_Main "HOL-Library.Word"
begin

unbundle bit_operations_syntax

section \<open>Values of the host language\<close>

text \<open>
  The audio helpers of \<^verbatim>\<open>src/utils/audio.ts\<close> run on the ECMAScript number type and
  on typed arrays. The exceptions the code can meet are values of \<open>error\<close>.
\<close>

type_synonym byte = "8 word"

datatype error =
    RangeError
  | TypeError
  | IndexSizeError
  | NotSupportedError
  | EncodingError
  | DataCloneError
  | InvalidCharacterError

text \<open>
  A number is a finite value, an infinity or NaN. Finite values are kept as exact
  rationals: every element of a \<^verbatim>\<open>Float32Array\<close> is a dyadic rational with a 24-bit
  significand, and on such inputs each double-precision operation of the encoder is exact
  (a product with 32767 or 32768 has at most 39 significant bits) or is only compared with
  zero (\<^verbatim>\<open>0.5 + sample < 0\<close>; rounding is monotone and keeps the sign). The two zeros are
  identified: the code never divides by a sample and \<^verbatim>\<open>-0 | 0\<close> is \<^verbatim>\<open>0\<close>.
\<close>

datatype number = Fin rat | PInf | NInf | NaN

fun Math_min :: "number \<Rightarrow> number \<Rightarrow> number" where
  "Math_min NaN y = NaN"
| "Math_min x NaN = NaN"
| "Math_min NInf y = NInf"
| "Math_min x NInf = NInf"
| "Math_min PInf y = y"
| "Math_min x PInf = x"
| "Math_min (Fin a) (Fin b) = Fin (min a b)"

fun Math_max :: "number \<Rightarrow> number \<Rightarrow> number" where
  "Math_max NaN y = NaN"
| "Math_max x NaN = NaN"
| "Math_max PInf y = PInf"
| "Math_max x PInf = PInf"
| "Math_max NInf y = y"
| "Math_max x NInf = x"
| "Math_max (Fin a) (Fin b) = Fin (max a b)"

fun js_add :: "number \<Rightarrow> number \<Rightarrow> number" where
  "js_add NaN y = NaN"
| "js_add x NaN = NaN"
| "js_add PInf NInf = NaN"
| "js_add NInf PInf = NaN"
| "js_add PInf y = PInf"
| "js_add x PInf = PInf"
| "js_add NInf y = NInf"
| "js_add x NInf = NInf"
| "js_add (Fin a) (Fin b) = Fin (a + b)"

fun js_mul :: "number \<Rightarrow> number \<Rightarrow> number" where
  "js_mul NaN y = NaN"
| "js_mul x NaN = NaN"
| "js_mul (Fin a) (Fin b) = Fin (a * b)"
| "js_mul (Fin a) PInf = (if a = 0 then NaN else if 0 < a then PInf else NInf)"
| "js_mul (Fin a) NInf = (if a = 0 then NaN else if 0 < a then NInf else PInf)"
| "js_mul PInf (Fin b) = (if b = 0 then NaN else if 0 < b then PInf else NInf)"
| "js_mul NInf (Fin b) = (if b = 0 then NaN else if 0 < b then NInf else PInf)"
| "js_mul PInf PInf = PInf"
| "js_mul NInf NInf = PInf"
| "js_mul PInf NInf = NInf"
| "js_mul NInf PInf = NInf"

fun js_lt :: "number \<Rightarrow> number \<Rightarrow> bool" where
  "js_lt NaN y = False"
| "js_lt x NaN = False"
| "js_lt (Fin a) (Fin b) = (a < b)"
| "js_lt NInf NInf = False"
| "js_lt NInf y = True"
| "js_lt x NInf = False"
| "js_lt PInf y = False"
| "js_lt x PInf = True"

text \<open>Truncation toward zero, the integer part that \<^verbatim>\<open>ToInt32\<close> starts from.\<close>

definition trunc :: "rat \<Rightarrow> int" where
  "trunc r = (if r < 0 then \<lceil>r\<rceil> else \<lfloor>r\<rfloor>)"

text \<open>\<^verbatim>\<open>x | 0\<close>: NaN and the infinities give 0, a finite value is truncated and wrapped
  to a signed 32-bit integer.\<close>

fun ToInt32 :: "number \<Rightarrow> int" where
  "ToInt32 (Fin r) = sint (word_of_int (trunc r) :: 32 word)"
| "ToInt32 PInf = 0"
| "ToInt32 NInf = 0"
| "ToInt32 NaN = 0"

text \<open>Reading a typed array outside its bounds gives \<^verbatim>\<open>undefined\<close> (here \<open>None\<close>),
  which \<^verbatim>\<open>ToNumber\<close> turns into NaN.\<close>

definition index_get :: "'a list \<Rightarrow> nat \<Rightarrow> 'a option" where
  "index_get xs i = (if i < length xs then Some (xs ! i) else None)"

fun ToNumber :: "number option \<Rightarrow> number" where
  "ToNumber None = NaN"
| "ToNumber (Some x) = x"

section \<open>Little-endian fields of a DataView\<close>

definition le16 :: "16 word \<Rightarrow> byte list" where
  "le16 w = [ucast w, ucast (drop_bit 8 w)]"

definition le32 :: "32 word \<Rightarrow> byte list" where
  "le32 w = [ucast w, ucast (drop_bit 8 w), ucast (drop_bit 16 w), ucast (drop_bit 24 w)]"

text \<open>A DataView store of \<open>bs\<close> at byte offset \<open>p\<close>: a RangeError when the field does
  not fit into the buffer, the buffer with these bytes replaced otherwise.\<close>

definition store_bytes :: "nat \<Rightarrow> byte list \<Rightarrow> byte list \<Rightarrow> error + byte list" where
  "store_bytes p bs v =
     (if p + length bs \<le> length v then Inr (take p v @ bs @ drop (p + length bs) v)
      else Inl RangeError)"

section \<open>The sample buffer and the WAV encoder\<close>

text \<open>
  An \<^verbatim>\<open>AudioBuffer\<close>: its sample rate, its channel count, its length in sample frames
  and one \<^verbatim>\<open>Float32Array\<close> per channel. The specification's data model takes the sample
  rate as a positive integer.
\<close>

record AudioBuffer =
  sampleRate :: nat
  numberOfChannels :: nat
  length_frames :: nat
  channelData :: "number list list"

definition valid_buffer :: "AudioBuffer \<Rightarrow> bool" where
  "valid_buffer b \<longleftrightarrow>
     0 < numberOfChannels b \<and>
     length (channelData b) = numberOfChannels b \<and>
     (\<forall>ch \<in> set (channelData b). length ch = length_frames b)"

definition getChannelData :: "AudioBuffer \<Rightarrow> nat \<Rightarrow> error + number list" where
  "getChannelData b i =
     (if i < numberOfChannels b \<and> i < length (channelData b) then Inr (channelData b ! i)
      else Inl IndexSizeError)"

record Blob =
  blob_bytes :: "byte list"
  blob_type :: string

text \<open>
  The local variables of \<^verbatim>\<open>audioBufferToWav\<close> that change while it runs: the bytes
  behind \<^verbatim>\<open>view\<close>, and the counters \<^verbatim>\<open>pos\<close> and \<^verbatim>\<open>offset\<close>. The field \<open>reads\<close> is
  bookkeeping only: it logs the (channel, index) pairs of the reads \<^verbatim>\<open>channels[i][pos]\<close>.
\<close>

record enc =
  view :: "byte list"
  pos :: nat
  offset :: nat
  reads :: "(nat \<times> nat) list"

definition setUint16 :: "int \<Rightarrow> enc \<Rightarrow> error + enc" where
  "setUint16 data st =
     (case store_bytes (pos st) (le16 (word_of_int data)) (view st) of
        Inl e \<Rightarrow> Inl e
      | Inr v \<Rightarrow> Inr (st\<lparr>view := v, pos := pos st + 2\<rparr>))"

definition setUint32 :: "int \<Rightarrow> enc \<Rightarrow> error + enc" where
  "setUint32 data st =
     (case store_bytes (pos st) (le32 (word_of_int data)) (view st) of
        Inl e \<Rightarrow> Inl e
      | Inr v \<Rightarrow> Inr (st\<lparr>view := v, pos := pos st + 4\<rparr>))"

text \<open>Statements run one after the other; the first exception ends the run.\<close>

fun seqE :: "('s \<Rightarrow> error + 's) list \<Rightarrow> 's \<Rightarrow> error + 's" where
  "seqE [] st = Inr st"
| "seqE (f # fs) st = (case f st of Inl e \<Rightarrow> Inl e | Inr st' \<Rightarrow> seqE fs st')"

text \<open>Lines 61 to 75: the header. The last field reads \<^verbatim>\<open>pos\<close> as it stands then.\<close>

definition write_header :: "AudioBuffer \<Rightarrow> int \<Rightarrow> enc \<Rightarrow> error + enc" where
  "write_header buffer len =
     seqE [
       setUint32 0x46464952,
       setUint32 (len - 8),
       setUint32 0x45564157,
       setUint32 0x20746d66,
       setUint32 16,
       setUint16 1,
       setUint16 (int (numberOfChannels buffer)),
       setUint32 (int (sampleRate buffer)),
       setUint32 (int (sampleRate buffer) * 2 * int (numberOfChannels buffer)),
       setUint16 (int (numberOfChannels buffer) * 2),
       setUint16 16,
       setUint32 0x61746164,
       (\<lambda>st. setUint32 (len - int (pos st) - 4) st)]"

text \<open>Lines 78 and 79: collecting the channels.\<close>

function push_channels :: "AudioBuffer \<Rightarrow> nat \<Rightarrow> number list list \<Rightarrow> error + number list list" where
  "push_channels buffer i channels =
     (if i < numberOfChannels buffer then
        (case getChannelData buffer i of
           Inl e \<Rightarrow> Inl e
         | Inr ch \<Rightarrow> push_channels buffer (i + 1) (channels @ [ch]))
      else Inr channels)"
  by pat_completeness auto
termination
  by (relation "measure (\<lambda>(buffer, i, channels). numberOfChannels buffer - i)") auto

text \<open>Lines 84 and 85: clamping and scaling one sample.\<close>

definition clamp :: "number \<Rightarrow> number" where
  "clamp x = Math_max (Fin (- 1)) (Math_min (Fin 1) x)"

definition scale :: "number \<Rightarrow> int" where
  "scale sample =
     ToInt32 (if js_lt (js_add (Fin (1 / 2)) sample) (Fin 0)
              then js_mul sample (Fin 32768) else js_mul sample (Fin 32767))"

text \<open>Lines 84 to 87: the body of the inner loop, for channel \<open>i\<close>.\<close>

definition write_sample :: "number list list \<Rightarrow> nat \<Rightarrow> enc \<Rightarrow> error + enc" where
  "write_sample channels i st =
     (case index_get channels i of
        None \<Rightarrow> Inl TypeError
      | Some ch \<Rightarrow>
          (let sample = scale (clamp (ToNumber (index_get ch (pos st)))) in
           case store_bytes (44 + offset st) (le16 (word_of_int sample)) (view st) of
             Inl e \<Rightarrow> Inl e
           | Inr v \<Rightarrow>
               Inr (st\<lparr>view := v, offset := offset st + 2,
                        reads := reads st @ [(i, pos st)]\<rparr>)))"

text \<open>Lines 82 to 88: the inner loop over the channels.\<close>

function interleave :: "number list list \<Rightarrow> nat \<Rightarrow> nat \<Rightarrow> enc \<Rightarrow> error + enc" where
  "interleave channels numOfChan i st =
     (if i < numOfChan then
        (case write_sample channels i st of
           Inl e \<Rightarrow> Inl e
         | Inr st' \<Rightarrow> interleave channels numOfChan (i + 1) st')
      else Inr st)"
  by pat_completeness auto
termination
  by (relation "measure (\<lambda>(channels, numOfChan, i, st). numOfChan - i)") auto

declare push_channels.simps [simp del] interleave.simps [simp del]

lemma write_sample_pos: "write_sample channels i st = Inr st' \<Longrightarrow> pos st' = pos st"
  by (auto simp: write_sample_def Let_def split: option.splits sum.splits)

lemma interleave_pos: "interleave channels n i st = Inr st' \<Longrightarrow> pos st' = pos st"
proof (induction channels n i st rule: interleave.induct)
  case (1 channels n i st)
  show ?case
  proof (cases "i < n")
    case True
    with "1.prems" obtain st1 where s1: "write_sample channels i st = Inr st1"
      and r: "interleave channels n (i + 1) st1 = Inr st'"
      by (auto simp: interleave.simps [of channels n i st] split: sum.splits)
    from "1.IH" [OF True s1 r] write_sample_pos [OF s1] show ?thesis by simp
  next
    case False
    with "1.prems" show ?thesis by (simp add: interleave.simps [of channels n i st])
  qed
qed

text \<open>Lines 81 to 90: the outer loop. It runs while \<^verbatim>\<open>pos\<close>, the counter that the
  header writes have advanced, is below the number of frames.\<close>

function frames_loop :: "AudioBuffer \<Rightarrow> number list list \<Rightarrow> nat \<Rightarrow> enc \<Rightarrow> error + enc" where
  "frames_loop buffer channels numOfChan st =
     (if pos st < length_frames buffer then
        (case interleave channels numOfChan 0 st of
           Inl e \<Rightarrow> Inl e
         | Inr st' \<Rightarrow> frames_loop buffer channels numOfChan (st'\<lparr>pos := pos st' + 1\<rparr>))
      else Inr st)"
  by pat_completeness auto
termination
  by (relation "measure (\<lambda>(buffer, channels, numOfChan, st). length_frames buffer - pos st)")
     (auto dest: interleave_pos)

declare frames_loop.simps [simp del]

text \<open>The whole of \<^verbatim>\<open>audioBufferToWav\<close> up to the final state of its locals.\<close>

definition encode_run :: "AudioBuffer \<Rightarrow> error + enc" where
  "encode_run buffer =
     (let numOfChan = numberOfChannels buffer;
          len = length_frames buffer * numOfChan * 2 + 44;
          st0 = \<lparr>view = replicate len 0, pos = 0, offset = 0, reads = []\<rparr>
      in case write_header buffer (int len) st0 of
           Inl e \<Rightarrow> Inl e
         | Inr st1 \<Rightarrow>
             (case push_channels buffer 0 [] of
                Inl e \<Rightarrow> Inl e
              | Inr channels \<Rightarrow> frames_loop buffer channels numOfChan st1))"

definition audioBufferToWav :: "AudioBuffer \<Rightarrow> error + Blob" where
  "audioBufferToWav buffer =
     (case encode_run buffer of
        Inl e \<Rightarrow> Inl e
      | Inr st \<Rightarrow> Inr \<lparr>blob_bytes = view st, blob_type = ''audio/wav''\<rparr>)"

section \<open>Array buffers and the platform\<close>

text \<open>
  An \<^verbatim>\<open>ArrayBuffer\<close> is a cell of a store, named by its address: it holds its bytes or it
  has been detached. Typed arrays that cover a whole buffer are named by the address of
  that buffer. A new buffer takes the next free address.
\<close>

datatype ArrayBuffer = Attached "byte list" | Detached

type_synonym heap = "ArrayBuffer list"

definition buffer_at :: "heap \<Rightarrow> nat \<Rightarrow> ArrayBuffer" where
  "buffer_at h a = (if a < length h then h ! a else Detached)"

definition new_Uint8Array :: "nat \<Rightarrow> heap \<Rightarrow> nat \<times> heap" where
  "new_Uint8Array len h = (length h, h @ [Attached (replicate len 0)])"

text \<open>\<^verbatim>\<open>bytes[i] = v\<close>: a store outside the array, or into a detached buffer, is ignored.\<close>

definition Uint8Array_put :: "nat \<Rightarrow> nat \<Rightarrow> byte \<Rightarrow> heap \<Rightarrow> heap" where
  "Uint8Array_put a i v h =
     (case buffer_at h a of
        Attached bs \<Rightarrow> if i < length bs then h[a := Attached (bs[i := v])] else h
      | Detached \<Rightarrow> h)"

text \<open>\<^verbatim>\<open>buffer.slice(0)\<close>: a new buffer with a copy of all bytes; a TypeError on a
  detached buffer.\<close>

definition ArrayBuffer_slice :: "nat \<Rightarrow> heap \<Rightarrow> error + nat \<times> heap" where
  "ArrayBuffer_slice a h =
     (case buffer_at h a of
        Attached bs \<Rightarrow> Inr (length h, h @ [Attached (drop 0 bs)])
      | Detached \<Rightarrow> Inl TypeError)"

text \<open>\<^verbatim>\<open>s.charCodeAt(i)\<close> is NaN outside the string; storing NaN into a
  \<^verbatim>\<open>Uint8Array\<close> stores 0, storing an integer stores it modulo 256.\<close>

definition charCodeAt :: "string \<Rightarrow> nat \<Rightarrow> nat option" where
  "charCodeAt s i = (if i < length s then Some (of_char (s ! i)) else None)"

fun ToUint8 :: "nat option \<Rightarrow> byte" where
  "ToUint8 None = 0"
| "ToUint8 (Some n) = of_nat n"

subsection \<open>atob\<close>

text \<open>
  \<^verbatim>\<open>atob\<close> is the forgiving base64 decoder of the HTML standard: ASCII whitespace is
  dropped, one or two padding signs are removed from data whose length is a multiple of
  four, and data with a length of 1 modulo 4 or with a character outside the alphabet
  raises InvalidCharacterError. The result is a string of code units below 256.
\<close>

definition b64_value :: "char \<Rightarrow> nat option" where
  "b64_value c =
     (let n = (of_char c :: nat) in
      if 65 \<le> n \<and> n \<le> 90 then Some (n - 65)
      else if 97 \<le> n \<and> n \<le> 122 then Some (n - 71)
      else if 48 \<le> n \<and> n \<le> 57 then Some (n + 4)
      else if n = 43 then Some 62
      else if n = 47 then Some 63
      else None)"

definition ascii_whitespace :: "char \<Rightarrow> bool" where
  "ascii_whitespace c \<longleftrightarrow> (of_char c :: nat) \<in> {9, 10, 12, 13, 32}"

definition strip_padding :: "string \<Rightarrow> string" where
  "strip_padding d =
     (if length d mod 4 = 0 \<and> d \<noteq> [] \<and> last d = CHR ''=''
      then (if butlast d \<noteq> [] \<and> last (butlast d) = CHR ''='' then butlast (butlast d)
            else butlast d)
      else d)"

fun sextets_to_bytes :: "nat list \<Rightarrow> nat list" where
  "sextets_to_bytes (a # b # c # d # rest) =
     (a * 4 + b div 16) # ((b mod 16) * 16 + c div 4) # ((c mod 4) * 64 + d) #
     sextets_to_bytes rest"
| "sextets_to_bytes [a, b, c] = [a * 4 + b div 16, (b mod 16) * 16 + c div 4]"
| "sextets_to_bytes [a, b] = [a * 4 + b div 16]"
| "sextets_to_bytes _ = []"

definition atob :: "string \<Rightarrow> error + string" where
  "atob data =
     (let d = strip_padding (filter (\<lambda>c. \<not> ascii_whitespace c) data) in
      if length d mod 4 = 1 then Inl InvalidCharacterError
      else case those (map b64_value d) of
             None \<Rightarrow> Inl InvalidCharacterError
           | Some vs \<Rightarrow> Inr (map char_of (sextets_to_bytes vs)))"

subsection \<open>The audio context\<close>

text \<open>
  What the code uses of an \<^verbatim>\<open>AudioContext\<close>. The container decoder is a parameter:
  \<open>decode_result\<close> maps the bytes it is given to the buffer it resolves with or to the
  error it rejects with, and \<open>detaches\<close> says whether it detaches the buffer it was
  handed (the Web Audio API prescribes that it does). The remaining fields are what the
  context supports in \<^verbatim>\<open>createBuffer\<close> beyond what every implementation must.
\<close>

record AudioContext =
  decode_result :: "byte list \<Rightarrow> error + AudioBuffer"
  detaches :: bool
  max_channels :: nat
  min_rate :: nat
  max_rate :: nat

text \<open>\<^verbatim>\<open>ctx.decodeAudioData(buf)\<close>: a detached argument is rejected with a
  DataCloneError; otherwise the argument is detached and the decoder's answer returned.\<close>

definition ctx_decodeAudioData ::
  "AudioContext \<Rightarrow> nat \<Rightarrow> heap \<Rightarrow> (error + AudioBuffer) \<times> heap" where
  "ctx_decodeAudioData ctx a h =
     (case buffer_at h a of
        Detached \<Rightarrow> (Inl DataCloneError, h)
      | Attached bs \<Rightarrow> (decode_result ctx bs, if detaches ctx then h[a := Detached] else h))"

text \<open>
  \<^verbatim>\<open>ctx.createBuffer(numberOfChannels, length, sampleRate)\<close>, after the Web Audio API:
  "A NotSupportedError exception MUST be thrown if any of the arguments is negative, zero,
  or outside its nominal range"; otherwise the result is a silent buffer of that size.
  The nominal ranges hold what the API asks of every implementation ("MUST support at
  least 32 channels", "MUST support sample rates in at least the range 8000 to 96000") and
  whatever the context supports beyond that.
\<close>

definition createBuffer :: "AudioContext \<Rightarrow> nat \<Rightarrow> nat \<Rightarrow> nat \<Rightarrow> error + AudioBuffer" where
  "createBuffer ctx nch len rate =
     (if nch = 0 \<or> len = 0 \<or> rate = 0 \<or> max 32 (max_channels ctx) < nch
         \<or> rate < min 8000 (min_rate ctx) \<or> max 96000 (max_rate ctx) < rate
      then Inl NotSupportedError
      else Inr \<lparr>sampleRate = rate, numberOfChannels = nch, length_frames = len,
                channelData = replicate nch (replicate len (Fin 0))\<rparr>)"

text \<open>\<^verbatim>\<open>buffer.getChannelData(0).set(src)\<close>: a RangeError when the source is longer
  than the channel.\<close>

definition channel0_set :: "AudioBuffer \<Rightarrow> number list \<Rightarrow> error + AudioBuffer" where
  "channel0_set buffer src =
     (case getChannelData buffer 0 of
        Inl e \<Rightarrow> Inl e
      | Inr ch \<Rightarrow>
          if length src \<le> length ch
          then Inr (buffer\<lparr>channelData := (channelData buffer)[0 := src @ drop (length src) ch]\<rparr>)
          else Inl RangeError)"

section \<open>The decoder\<close>

text \<open>The elements of \<^verbatim>\<open>new Int16Array(buffer)\<close>, on a little-endian platform: each
  pair of bytes, low byte first.\<close>

fun Int16Array_of :: "byte list \<Rightarrow> 16 word list" where
  "Int16Array_of (lo # hi # rest) = (push_bit 8 (ucast hi) OR ucast lo) # Int16Array_of rest"
| "Int16Array_of _ = []"

text \<open>Line 38. The quotient of a 16-bit integer by 32768 is a dyadic rational with at
  most 16 significant bits: the division and the store into the \<^verbatim>\<open>Float32Array\<close> are
  both exact.\<close>

definition rescale :: "16 word \<Rightarrow> number" where
  "rescale w = Fin (of_int (sint w) / 32768)"

text \<open>Lines 36 to 39.\<close>

function rescale_loop :: "16 word list \<Rightarrow> nat \<Rightarrow> number list \<Rightarrow> number list" where
  "rescale_loop int16Data i float32Data =
     (if i < length int16Data then
        rescale_loop int16Data (i + 1)
          (if i < length float32Data then float32Data[i := rescale (int16Data ! i)]
           else float32Data)
      else float32Data)"
  by pat_completeness auto
termination
  by (relation "measure (\<lambda>(int16Data, i, float32Data). length int16Data - i)") auto

declare rescale_loop.simps [simp del]

text \<open>Lines 29 to 44. \<^verbatim>\<open>new Int16Array(bytes.buffer)\<close> raises a TypeError on a detached
  buffer and a RangeError on a byte length that is not a multiple of 2.\<close>

definition manualPCMDecode :: "nat \<Rightarrow> AudioContext \<Rightarrow> heap \<Rightarrow> error + AudioBuffer" where
  "manualPCMDecode bytes ctx h =
     (let sampleRate = 24000; numChannels = 1 in
      case buffer_at h bytes of
        Detached \<Rightarrow> Inl TypeError
      | Attached bs \<Rightarrow>
          if odd (length bs) then Inl RangeError
          else
            (let int16Data = Int16Array_of bs;
                 float32Data = rescale_loop int16Data 0 (replicate (length int16Data) (Fin 0))
             in case createBuffer ctx numChannels (length float32Data) sampleRate of
                  Inl e \<Rightarrow> Inl e
                | Inr buffer \<Rightarrow> channel0_set buffer float32Data))"

text \<open>Lines 11 to 13.\<close>

function fill_bytes :: "string \<Rightarrow> nat \<Rightarrow> nat \<Rightarrow> nat \<Rightarrow> heap \<Rightarrow> heap" where
  "fill_bytes binaryString len i bytes h =
     (if i < len then
        fill_bytes binaryString len (i + 1) bytes
          (Uint8Array_put bytes i (ToUint8 (charCodeAt binaryString i)) h)
      else h)"
  by pat_completeness auto
termination
  by (relation "measure (\<lambda>(binaryString, len, i, bytes, h). len - i)") auto

declare fill_bytes.simps [simp del]

text \<open>
  Lines 4 to 27. An exception of \<^verbatim>\<open>atob\<close> leaves the function before the \<^verbatim>\<open>try\<close>;
  an exception of the copy or a rejection of the awaited platform decoder is caught and
  answered by \<^verbatim>\<open>manualPCMDecode\<close>, whose own exceptions are not caught.
\<close>

definition decodeAudioData ::
  "string \<Rightarrow> AudioContext \<Rightarrow> heap \<Rightarrow> (error + AudioBuffer) \<times> heap" where
  "decodeAudioData base64Data audioContext h =
     (case atob base64Data of
        Inl e \<Rightarrow> (Inl e, h)
      | Inr binaryString \<Rightarrow>
          (let len = length binaryString;
               (bytes, h1) = new_Uint8Array len h;
               h2 = fill_bytes binaryString len 0 bytes h1
           in case ArrayBuffer_slice bytes h2 of
                Inl e \<Rightarrow> (manualPCMDecode bytes audioContext h2, h2)
              | Inr (bufferCopy, h3) \<Rightarrow>
                  (case ctx_decodeAudioData audioContext bufferCopy h3 of
                     (Inr buffer, h4) \<Rightarrow> (Inr buffer, h4)
                   | (Inl e, h4) \<Rightarrow> (manualPCMDecode bytes audioContext h4, h4))))"

section \<open>The encoder and the store\<close>

text \<open>
  \<^verbatim>\<open>audioBufferToWav\<close> once more, now with the memory it works on. The \<^verbatim>\<open>ArrayBuffer\<close>
  that it allocates is a cell of the store, as the buffers of the decoder are; the writes
  through \<^verbatim>\<open>view\<close> go to that cell, and the \<^verbatim>\<open>Blob\<close> takes its bytes from it. The store
  at the start of an invocation is all that earlier invocations and other code have left
  behind. \<^verbatim>\<open>new ArrayBuffer(length)\<close> yields a buffer of zeros at the next free address.
\<close>

definition new_ArrayBuffer :: "nat \<Rightarrow> heap \<Rightarrow> nat \<times> heap" where
  "new_ArrayBuffer len h = (length h, h @ [Attached (replicate len 0)])"

text \<open>A store through a \<^verbatim>\<open>DataView\<close> on the buffer at address \<open>a\<close>: a TypeError on a
  detached buffer, a RangeError outside the buffer.\<close>

definition DataView_store :: "nat \<Rightarrow> nat \<Rightarrow> byte list \<Rightarrow> heap \<Rightarrow> error + heap" where
  "DataView_store a p bs h =
     (case buffer_at h a of
        Detached \<Rightarrow> Inl TypeError
      | Attached v \<Rightarrow>
          (case store_bytes p bs v of
             Inl e \<Rightarrow> Inl e
           | Inr v' \<Rightarrow> Inr (h[a := Attached v'])))"

text \<open>The locals of the function: the store, the address of \<^verbatim>\<open>bufferArr\<close>, which
  \<^verbatim>\<open>view\<close> covers, and the counters \<^verbatim>\<open>pos\<close> and \<^verbatim>\<open>offset\<close>.\<close>

record enc_store =
  memory :: heap
  bufferArr :: nat
  pos_now :: nat
  offset_now :: nat

definition setUint16_store :: "int \<Rightarrow> enc_store \<Rightarrow> error + enc_store" where
  "setUint16_store data s =
     (case DataView_store (bufferArr s) (pos_now s) (le16 (word_of_int data)) (memory s) of
        Inl e \<Rightarrow> Inl e
      | Inr h \<Rightarrow> Inr (s\<lparr>memory := h, pos_now := pos_now s + 2\<rparr>))"

definition setUint32_store :: "int \<Rightarrow> enc_store \<Rightarrow> error + enc_store" where
  "setUint32_store data s =
     (case DataView_store (bufferArr s) (pos_now s) (le32 (word_of_int data)) (memory s) of
        Inl e \<Rightarrow> Inl e
      | Inr h \<Rightarrow> Inr (s\<lparr>memory := h, pos_now := pos_now s + 4\<rparr>))"

definition write_header_store :: "AudioBuffer \<Rightarrow> int \<Rightarrow> enc_store \<Rightarrow> error + enc_store" where
  "write_header_store buffer len =
     seqE [
       setUint32_store 0x46464952,
       setUint32_store (len - 8),
       setUint32_store 0x45564157,
       setUint32_store 0x20746d66,
       setUint32_store 16,
       setUint16_store 1,
       setUint16_store (int (numberOfChannels buffer)),
       setUint32_store (int (sampleRate buffer)),
       setUint32_store (int (sampleRate buffer) * 2 * int (numberOfChannels buffer)),
       setUint16_store (int (numberOfChannels buffer) * 2),
       setUint16_store 16,
       setUint32_store 0x61746164,
       (\<lambda>s. setUint32_store (len - int (pos_now s) - 4) s)]"

definition write_sample_store :: "number list list \<Rightarrow> nat \<Rightarrow> enc_store \<Rightarrow> error + enc_store" where
  "write_sample_store channels i s =
     (case index_get channels i of
        None \<Rightarrow> Inl TypeError
      | Some ch \<Rightarrow>
          (let sample = scale (clamp (ToNumber (index_get ch (pos_now s)))) in
           case DataView_store (bufferArr s) (44 + offset_now s) (le16 (word_of_int sample))
                  (memory s) of
             Inl e \<Rightarrow> Inl e
           | Inr h \<Rightarrow> Inr (s\<lparr>memory := h, offset_now := offset_now s + 2\<rparr>)))"

function interleave_store ::
  "number list list \<Rightarrow> nat \<Rightarrow> nat \<Rightarrow> enc_store \<Rightarrow> error + enc_store" where
  "interleave_store channels numOfChan i s =
     (if i < numOfChan then
        (case write_sample_store channels i s of
           Inl e \<Rightarrow> Inl e
         | Inr s' \<Rightarrow> interleave_store channels numOfChan (i + 1) s')
      else Inr s)"
  by pat_completeness auto
termination
  by (relation "measure (\<lambda>(channels, numOfChan, i, s). numOfChan - i)") auto

declare interleave_store.simps [simp del]

lemma write_sample_store_pos:
  "write_sample_store channels i s = Inr s' \<Longrightarrow> pos_now s' = pos_now s"
  by (auto simp: write_sample_store_def Let_def split: option.splits sum.splits)

lemma interleave_store_pos:
  "interleave_store channels n i s = Inr s' \<Longrightarrow> pos_now s' = pos_now s"
proof (induction channels n i s rule: interleave_store.induct)
  case (1 channels n i s)
  show ?case
  proof (cases "i < n")
    case True
    with "1.prems" obtain s1 where s1: "write_sample_store channels i s = Inr s1"
      and r: "interleave_store channels n (i + 1) s1 = Inr s'"
      by (auto simp: interleave_store.simps [of channels n i s] split: sum.splits)
    from "1.IH" [OF True s1 r] write_sample_store_pos [OF s1] show ?thesis by simp
  next
    case False
    with "1.prems" show ?thesis by (simp add: interleave_store.simps [of channels n i s])
  qed
qed

function frames_loop_store ::
  "AudioBuffer \<Rightarrow> number list list \<Rightarrow> nat \<Rightarrow> enc_store \<Rightarrow> error + enc_store" where
  "frames_loop_store buffer channels numOfChan s =
     (if pos_now s < length_frames buffer then
        (case interleave_store channels numOfChan 0 s of
           Inl e \<Rightarrow> Inl e
         | Inr s' \<Rightarrow> frames_loop_store buffer channels numOfChan (s'\<lparr>pos_now := pos_now s' + 1\<rparr>))
      else Inr s)"
  by pat_completeness auto
termination
  by (relation "measure (\<lambda>(buffer, channels, numOfChan, s). length_frames buffer - pos_now s)")
     (auto dest: interleave_store_pos)

declare frames_loop_store.simps [simp del]

text \<open>\<^verbatim>\<open>new Blob([bufferArr], {type})\<close> copies the bytes of the buffer.\<close>

definition new_Blob :: "nat \<Rightarrow> string \<Rightarrow> heap \<Rightarrow> Blob" where
  "new_Blob a type h =
     (case buffer_at h a of
        Attached v \<Rightarrow> \<lparr>blob_bytes = v, blob_type = type\<rparr>
      | Detached \<Rightarrow> \<lparr>blob_bytes = [], blob_type = type\<rparr>)"

text \<open>Lines 49 to 92, returning the \<^verbatim>\<open>Blob\<close> and the store that the invocation leaves.\<close>

definition audioBufferToWav_store :: "AudioBuffer \<Rightarrow> heap \<Rightarrow> error + Blob \<times> heap" where
  "audioBufferToWav_store buffer h =
     (let numOfChan = numberOfChannels buffer;
          len = length_frames buffer * numOfChan * 2 + 44;
          (a, h0) = new_ArrayBuffer len h;
          s0 = \<lparr>memory = h0, bufferArr = a, pos_now = 0, offset_now = 0\<rparr>
      in case write_header_store buffer (int len) s0 of
           Inl e \<Rightarrow> Inl e
         | Inr s1 \<Rightarrow>
             (case push_channels buffer 0 [] of
                Inl e \<Rightarrow> Inl e
              | Inr channels \<Rightarrow>
                  (case frames_loop_store buffer channels numOfChan s1 of
                     Inl e \<Rightarrow> Inl e
                   | Inr s2 \<Rightarrow> Inr (new_Blob (bufferArr s2) ''audio/wav'' (memory s2), memory s2))))"

section \<open>Notions for stating the properties\<close>

text \<open>
  The two bytes that the inner loop writes for channel \<open>j\<close> of frame \<open>q\<close>, the bytes
  of the channels \<open>i\<close> up to \<open>n\<close> of one frame, the bytes of the frames \<open>p\<close> up to
  \<open>L\<close>, and the reads these frames make.
\<close>

definition sample_bytes :: "number list list \<Rightarrow> nat \<Rightarrow> nat \<Rightarrow> byte list" where
  "sample_bytes channels q j =
     le16 (word_of_int (scale (clamp (ToNumber (index_get (channels ! j) q)))))"

definition frame_bytes :: "number list list \<Rightarrow> nat \<Rightarrow> nat \<Rightarrow> nat \<Rightarrow> byte list" where
  "frame_bytes channels i n q = concat (map (sample_bytes channels q) [i..<n])"

definition data_bytes :: "number list list \<Rightarrow> nat \<Rightarrow> nat \<Rightarrow> nat \<Rightarrow> byte list" where
  "data_bytes channels n p L = concat (map (frame_bytes channels 0 n) [p..<L])"

definition frame_reads :: "nat \<Rightarrow> nat \<Rightarrow> nat \<Rightarrow> (nat \<times> nat) list" where
  "frame_reads n p L = concat (map (\<lambda>q. map (\<lambda>j. (j, q)) [0..<n]) [p..<L])"

text \<open>
  The 44 header bytes as the specification lays them out, for a file of \<open>len\<close> bytes.
\<close>

definition wav_header :: "AudioBuffer \<Rightarrow> nat \<Rightarrow> byte list" where
  "wav_header b len =
     map of_char ''RIFF'' @ le32 (of_nat (len - 8)) @ map of_char ''WAVE'' @
     map of_char ''fmt '' @ le32 16 @ le16 1 @ le16 (of_nat (numberOfChannels b)) @
     le32 (of_nat (sampleRate b)) @ le32 (of_nat (sampleRate b * numberOfChannels b * 2)) @
     le16 (of_nat (numberOfChannels b * 2)) @ le16 16 @
     map of_char ''data'' @ le32 (of_nat (len - 44))"

text \<open>
  The \<open>n\<close> bytes of a file from offset \<open>off\<close>, and the number that a little-endian
  field holds.
\<close>

definition bytes_at :: "nat \<Rightarrow> nat \<Rightarrow> byte list \<Rightarrow> byte list" where
  "bytes_at off n bs = take n (drop off bs)"

definition le_nat :: "byte list \<Rightarrow> nat" where
  "le_nat bs = foldr (\<lambda>b n. unat b + 256 * n) bs 0"

text \<open>
  The state of the encoder while it writes the header into a buffer of zeros: the bytes
  written so far, \<open>k\<close> zeros behind them, and \<^verbatim>\<open>pos\<close> at the end of what is written.
\<close>

definition hdr_state :: "byte list \<Rightarrow> nat \<Rightarrow> enc" where
  "hdr_state xs k = \<lparr>view = xs @ replicate k 0, pos = length xs, offset = 0, reads = []\<rparr>"

text \<open>
  The conversion of one finite sample in the specification's words: clamp to [-1, 1],
  multiply by 32768 when the clamped value plus 0.5 is negative and by 32767 otherwise,
  truncate toward zero.
\<close>

definition quantize :: "rat \<Rightarrow> int" where
  "quantize r =
     (let c = max (- 1) (min 1 r) in
      trunc (if c + 1 / 2 < 0 then c * 32768 else c * 32767))"

text \<open>
  The signed 16-bit integer of a pair of bytes, low byte first.
\<close>

definition int16_le :: "byte \<Rightarrow> byte \<Rightarrow> int" where
  "int16_le lo hi =
     (let u = int (unat lo) + 256 * int (unat hi) in if u < 32768 then u else u - 65536)"

text \<open>
  The locals of the encoder in the store and the locals of the encoder on its own bytes
  agree: the store is \<open>h\<close>, the store the invocation found, with the encoder's buffer
  behind it, and the counters are the same.
\<close>

definition sim :: "heap \<Rightarrow> enc_store \<Rightarrow> enc \<Rightarrow> bool" where
  "sim h s st \<longleftrightarrow>
     memory s = h @ [Attached (view st)] \<and> bufferArr s = length h \<and>
     pos_now s = pos st \<and> offset_now s = offset st"

section \<open>One sample\<close>

lemma trunc_bounds:
  assumes "of_int a \<le> r" and "r \<le> of_int b"
  shows "a \<le> trunc r \<and> trunc r \<le> b"
proof -
  from assms have lo: "a \<le> \<lfloor>r\<rfloor>" and hi: "\<lceil>r\<rceil> \<le> b"
    by (simp_all add: le_floor_iff ceiling_le_iff)
  from lo have "a \<le> \<lceil>r\<rceil>"
    by (rule order_trans) (rule floor_le_ceiling)
  moreover have "\<lfloor>r\<rfloor> \<le> b"
    by (rule order_trans [OF floor_le_ceiling hi])
  ultimately show ?thesis
    using lo hi by (simp add: trunc_def)
qed

lemma ToInt32_small:
  assumes "- 32768 \<le> trunc r" and "trunc r \<le> 32767"
  shows "ToInt32 (Fin r) = trunc r"
proof -
  from assms have "signed_take_bit 31 (trunc r) = trunc r"
    by (intro signed_take_bit_int_eq_self) simp_all
  then show ?thesis
    by (simp add: sint_sbintrunc')
qed

lemma quantize_range: "- 32768 \<le> quantize r \<and> quantize r \<le> 32767"
proof -
  define c where "c = max (- 1) (min 1 r)"
  have c: "- 1 \<le> c" "c \<le> 1" by (simp_all add: c_def)
  show ?thesis
  proof (cases "c + 1 / 2 < 0")
    case True
    have "of_int (- 32768) \<le> c * 32768" "c * 32768 \<le> of_int 32767"
      using c True by simp_all
    from trunc_bounds [OF this] True show ?thesis
      unfolding quantize_def Let_def c_def [symmetric] by simp
  next
    case False
    have "of_int (- 32768) \<le> c * 32767" "c * 32767 \<le> of_int 32767"
      using c by simp_all
    from trunc_bounds [OF this] False show ?thesis
      unfolding quantize_def Let_def c_def [symmetric] by simp
  qed
qed

text \<open>
  The code's clamping and scaling agree with the specification's words on every finite
  sample; NaN becomes 0 and the infinities become the two ends of the range. The result is a
  16-bit value as it stands: the store \<^verbatim>\<open>setInt16\<close> never wraps it.
\<close>

lemma scale_clamp_Fin: "scale (clamp (Fin r)) = quantize r"
proof -
  define c where "c = max (- 1) (min 1 r)"
  define v where "v = (if c + 1 / 2 < 0 then c * 32768 else c * 32767)"
  have q: "quantize r = trunc v"
    by (simp only: quantize_def Let_def c_def v_def)
  have "clamp (Fin r) = Fin c"
    by (simp add: clamp_def c_def)
  then have "scale (clamp (Fin r)) = ToInt32 (Fin v)"
    by (simp add: scale_def v_def add.commute)
  also have "\<dots> = trunc v"
    using quantize_range [of r] unfolding q by (intro ToInt32_small) simp_all
  finally show ?thesis
    by (simp add: q)
qed

lemma scale_clamp_special:
  "scale (clamp NaN) = 0" "scale (clamp PInf) = 32767" "scale (clamp NInf) = - 32768"
  by (simp_all add: scale_def clamp_def trunc_def)

lemma scale_clamp_range: "- 32768 \<le> scale (clamp x) \<and> scale (clamp x) \<le> 32767"
  using quantize_range by (cases x) (simp_all add: scale_clamp_Fin scale_clamp_special)

lemma scale_clamp_int16: "sint (word_of_int (scale (clamp x)) :: 16 word) = scale (clamp x)"
proof -
  from scale_clamp_range [of x] have "signed_take_bit 15 (scale (clamp x)) = scale (clamp x)"
    by (intro signed_take_bit_int_eq_self) simp_all
  then show ?thesis
    by (simp add: sint_sbintrunc')
qed

section \<open>Little-endian fields\<close>

lemma length_le16 [simp]: "length (le16 w) = 2"
  by (simp add: le16_def)

lemma length_le32 [simp]: "length (le32 w) = 4"
  by (simp add: le32_def)

lemma le_nat_le16: "le_nat (le16 w) = unat w"
proof -
  have lt: "unat w < 65536"
    using unsigned_less [of w, where ?'a = nat] by simp
  have "unat (ucast w :: byte) = unat w mod 256"
    by (simp add: unsigned_ucast_eq take_bit_eq_mod)
  moreover have "unat (drop_bit 8 w) = unat w div 256"
    by (simp only: unat_drop_bit_eq) (simp add: drop_bit_eq_div)
  then have "unat (ucast (drop_bit 8 w) :: byte) = unat w div 256"
    using lt by (simp add: unsigned_ucast_eq take_bit_eq_mod)
  ultimately show ?thesis
    by (simp add: le_nat_def le16_def)
qed

lemma le_nat_le32: "le_nat (le32 w) = unat w"
proof -
  have lt: "unat w < 4294967296"
    using unsigned_less [of w, where ?'a = nat] by simp
  have d: "unat (drop_bit k w) = unat w div 2 ^ k" for k
    by (simp only: unat_drop_bit_eq) (simp add: drop_bit_eq_div)
  have u: "unat (ucast v :: byte) = unat v mod 256" for v :: "32 word"
    by (simp add: unsigned_ucast_eq take_bit_eq_mod)
  have "le_nat (le32 w) = unat w mod 256 + 256 * ((unat w div 256) mod 256
      + 256 * ((unat w div 65536) mod 256 + 256 * ((unat w div 16777216) mod 256)))"
    by (simp add: le_nat_def le32_def u d)
  also have "\<dots> = unat w"
  proof -
    define n where "n = unat w"
    have q2: "n div 65536 = n div 256 div 256" and q3: "n div 16777216 = n div 256 div 256 div 256"
      by (simp_all add: div_mult2_eq [symmetric])
    have 1: "n = n mod 256 + 256 * (n div 256)"
      and 2: "n div 256 = n div 256 mod 256 + 256 * (n div 256 div 256)"
      and 3: "n div 256 div 256 = n div 256 div 256 mod 256 + 256 * (n div 256 div 256 div 256)"
      by simp_all
    from lt have "n div 256 div 256 div 256 < 256"
      by (simp add: n_def div_mult2_eq [symmetric])
    then have 4: "n div 256 div 256 div 256 mod 256 = n div 256 div 256 div 256"
      by simp
    show ?thesis
      unfolding n_def [symmetric] q2 q3 4 by (simp only: mod_mult_div_eq)
  qed
  finally show ?thesis .
qed

lemma le_nat_le16_of_nat: "le_nat (le16 (of_nat v)) = v mod 65536"
  by (simp add: le_nat_le16 unat_of_nat)

lemma le_nat_le32_of_nat: "le_nat (le32 (of_nat v)) = v mod 4294967296"
  by (simp add: le_nat_le32 unat_of_nat)

section \<open>The encoder, loop by loop\<close>

lemma length_sample_bytes [simp]: "length (sample_bytes channels q j) = 2"
  by (simp add: sample_bytes_def)

lemma length_frame_bytes [simp]: "length (frame_bytes channels i n q) = 2 * (n - i)"
  by (simp add: frame_bytes_def length_concat o_def sum_list_triv)

lemma frame_bytes_empty [simp]: "n \<le> i \<Longrightarrow> frame_bytes channels i n q = []"
  by (simp add: frame_bytes_def)

lemma frame_bytes_step:
  "i < n \<Longrightarrow> frame_bytes channels i n q = sample_bytes channels q i @ frame_bytes channels (Suc i) n q"
  by (simp add: frame_bytes_def upt_conv_Cons)

lemma take_patch:
  "length ys = k \<Longrightarrow> a + k \<le> length v \<Longrightarrow>
   take (a + k) (take a v @ ys @ drop (a + k) v) = take a v @ ys"
  by simp

lemma drop_patch:
  "length ys = k \<Longrightarrow> a + k \<le> length v \<Longrightarrow> a + k \<le> d \<Longrightarrow>
   drop d (take a v @ ys @ drop (a + k) v) = drop d v"
  by (simp add: min_absorb2)

lemma write_sample_ok:
  assumes "i < length channels" and "46 + offset st \<le> length (view st)"
  shows "write_sample channels i st =
           Inr (st\<lparr>view := take (44 + offset st) (view st) @ sample_bytes channels (pos st) i
                            @ drop (46 + offset st) (view st),
                   offset := offset st + 2,
                   reads := reads st @ [(i, pos st)]\<rparr>)"
  using assms
  by (simp add: write_sample_def index_get_def store_bytes_def sample_bytes_def Let_def add.commute)

lemma interleave_ok:
  assumes "n \<le> length channels" and "i \<le> n"
    and "44 + offset st + 2 * (n - i) \<le> length (view st)"
  shows "interleave channels n i st =
           Inr (st\<lparr>view := take (44 + offset st) (view st) @ frame_bytes channels i n (pos st)
                            @ drop (44 + offset st + 2 * (n - i)) (view st),
                   offset := offset st + 2 * (n - i),
                   reads := reads st @ map (\<lambda>j. (j, pos st)) [i..<n]\<rparr>)"
  using assms
proof (induction channels n i st rule: interleave.induct)
  case (1 channels n i st)
  show ?case
  proof (cases "i < n")
    case False
    with "1.prems" have "i = n" by simp
    then show ?thesis by (simp add: interleave.simps [of channels n n st])
  next
    case True
    let ?st1 = "st\<lparr>view := take (44 + offset st) (view st) @ sample_bytes channels (pos st) i
                            @ drop (46 + offset st) (view st),
                   offset := offset st + 2,
                   reads := reads st @ [(i, pos st)]\<rparr>"
    from True "1.prems" have ws: "write_sample channels i st = Inr ?st1"
      by (intro write_sample_ok) auto
    from True "1.prems" have len1: "length (view ?st1) = length (view st)" by simp
    have rec: "interleave channels n (i + 1) ?st1 =
           Inr (?st1\<lparr>view := take (44 + offset ?st1) (view ?st1) @ frame_bytes channels (i + 1) n (pos ?st1)
                            @ drop (44 + offset ?st1 + 2 * (n - (i + 1))) (view ?st1),
                   offset := offset ?st1 + 2 * (n - (i + 1)),
                   reads := reads ?st1 @ map (\<lambda>j. (j, pos ?st1)) [i + 1..<n]\<rparr>)"
      using True "1.prems" len1 by (intro "1.IH" [OF True ws]) auto
    have v1: "take (44 + offset ?st1) (view ?st1) = take (44 + offset st) (view st) @ sample_bytes channels (pos st) i"
      using True "1.prems" by simp
    have v2: "drop (44 + offset ?st1 + 2 * (n - (i + 1))) (view ?st1) = drop (44 + offset st + 2 * (n - i)) (view st)"
    proof -
      have e: "2 * (n - Suc i) + (46 + offset st) = 44 + offset st + 2 * (n - i)"
        using True by arith
      show ?thesis using True "1.prems" by (simp add: e)
    qed
    have o: "offset ?st1 + 2 * (n - (i + 1)) = offset st + 2 * (n - i)"
      using True by simp
    show ?thesis
      unfolding interleave.simps [of channels n i st] 
      using True by (simp add: ws rec [simplified] v1 [simplified] v2 [simplified] frame_bytes_step upt_conv_Cons)
  qed
qed

lemma length_data_bytes [simp]: "length (data_bytes channels n p L) = 2 * n * (L - p)"
  by (simp add: data_bytes_def length_concat o_def sum_list_triv)

lemma data_bytes_empty [simp]: "L \<le> p \<Longrightarrow> data_bytes channels n p L = []"
  by (simp add: data_bytes_def)

lemma data_bytes_step:
  "p < L \<Longrightarrow> data_bytes channels n p L = frame_bytes channels 0 n p @ data_bytes channels n (Suc p) L"
  by (simp add: data_bytes_def upt_conv_Cons)

lemma frame_reads_empty [simp]: "L \<le> p \<Longrightarrow> frame_reads n p L = []"
  by (simp add: frame_reads_def)

lemma frame_reads_step:
  "p < L \<Longrightarrow> frame_reads n p L = map (\<lambda>j. (j, p)) [0..<n] @ frame_reads n (Suc p) L"
  by (simp add: frame_reads_def upt_conv_Cons)

lemma set_frame_reads: "set (frame_reads n p L) = {(j, q). j < n \<and> p \<le> q \<and> q < L}"
  by (auto simp: frame_reads_def)

lemma frames_loop_ok:
  assumes "n \<le> length channels"
    and "44 + offset st + 2 * n * (length_frames b - pos st) \<le> length (view st)"
  shows "frames_loop b channels n st =
           Inr (st\<lparr>view := take (44 + offset st) (view st)
                            @ data_bytes channels n (pos st) (length_frames b)
                            @ drop (44 + offset st + 2 * n * (length_frames b - pos st)) (view st),
                   pos := max (pos st) (length_frames b),
                   offset := offset st + 2 * n * (length_frames b - pos st),
                   reads := reads st @ frame_reads n (pos st) (length_frames b)\<rparr>)"
  using assms
proof (induction b channels n st rule: frames_loop.induct)
  case (1 b channels n st)
  let ?L = "length_frames b"
  show ?case
  proof (cases "pos st < ?L")
    case False
    then show ?thesis
      by (simp add: frames_loop.simps [of b channels n st] max_absorb1)
  next
    case True
    then have split: "n * (?L - pos st) = n + n * (?L - Suc (pos st))"
      by (metis Suc_diff_Suc mult_Suc_right)
    let ?st1 = "st\<lparr>view := take (44 + offset st) (view st) @ frame_bytes channels 0 n (pos st)
                            @ drop (44 + offset st + 2 * (n - 0)) (view st),
                   offset := offset st + 2 * (n - 0),
                   reads := reads st @ map (\<lambda>j. (j, pos st)) [0..<n]\<rparr>"
    let ?st2 = "?st1\<lparr>pos := pos ?st1 + 1\<rparr>"
    from "1.prems" split have room: "44 + offset st + 2 * (n - 0) \<le> length (view st)"
      by simp
    have il: "interleave channels n 0 st = Inr ?st1"
      using "1.prems"(1) room by (intro interleave_ok) auto
    have len1: "length (view ?st2) = length (view st)"
      using room by simp
    have rec: "frames_loop b channels n ?st2 =
           Inr (?st2\<lparr>view := take (44 + offset ?st2) (view ?st2)
                            @ data_bytes channels n (pos ?st2) ?L
                            @ drop (44 + offset ?st2 + 2 * n * (?L - pos ?st2)) (view ?st2),
                   pos := max (pos ?st2) ?L,
                   offset := offset ?st2 + 2 * n * (?L - pos ?st2),
                   reads := reads ?st2 @ frame_reads n (pos ?st2) ?L\<rparr>)"
      using "1.prems" split len1 by (intro "1.IH" [OF True il]) auto
    have o: "offset ?st2 + 2 * n * (?L - pos ?st2) = offset st + 2 * n * (?L - pos st)"
      using split by simp
    have v1: "take (44 + offset ?st2) (view ?st2) =
                take (44 + offset st) (view st) @ frame_bytes channels 0 n (pos st)"
      using room by simp
    have v2: "drop (44 + offset ?st2 + 2 * n * (?L - pos ?st2)) (view ?st2) =
                drop (44 + offset st + 2 * n * (?L - pos st)) (view st)"
    proof -
      have e: "44 + offset ?st2 + 2 * n * (?L - pos ?st2) = 44 + offset st + 2 * n * (?L - pos st)"
        using split by simp
      have le: "(44 + offset st) + 2 * n \<le> 44 + offset st + 2 * n * (?L - pos st)"
        using split by simp
      have "drop (44 + offset st + 2 * n * (?L - pos st))
              (take (44 + offset st) (view st) @ frame_bytes channels 0 n (pos st)
                 @ drop ((44 + offset st) + 2 * n) (view st))
              = drop (44 + offset st + 2 * n * (?L - pos st)) (view st)"
        using room le by (intro drop_patch) auto
      then show ?thesis unfolding e by simp
    qed
    have m: "max (pos ?st2) ?L = max (pos st) ?L"
      using True by simp
    have "frames_loop b channels n st = frames_loop b channels n ?st2"
      using True by (simp add: frames_loop.simps [of b channels n st] il)
    also note rec
    finally show ?thesis
      unfolding v1 v2 o m
      using True by (simp add: data_bytes_step frame_reads_step)
  qed
qed

lemma length_wav_header [simp]: "length (wav_header b len) = 44"
  by (simp add: wav_header_def)

lemma store_bytes_append:
  "length bs \<le> length zs \<Longrightarrow>
   store_bytes (length xs) bs (xs @ zs) = Inr ((xs @ bs) @ drop (length bs) zs)"
  by (simp add: store_bytes_def)

lemma pos_hdr_state: "pos (hdr_state xs k) = length xs"
  by (simp add: hdr_state_def)

lemma setUint32_hdr:
  "4 \<le> k \<Longrightarrow> setUint32 d (hdr_state xs k) = Inr (hdr_state (xs @ le32 (word_of_int d)) (k - 4))"
  using store_bytes_append [of "le32 (word_of_int d)" "replicate k 0" xs]
  by (simp add: setUint32_def hdr_state_def)

lemma setUint16_hdr:
  "2 \<le> k \<Longrightarrow> setUint16 d (hdr_state xs k) = Inr (hdr_state (xs @ le16 (word_of_int d)) (k - 2))"
  using store_bytes_append [of "le16 (word_of_int d)" "replicate k 0" xs]
  by (simp add: setUint16_def hdr_state_def)

lemma magic: "le32 0x46464952 = map of_char ''RIFF''"
  "le32 0x45564157 = map of_char ''WAVE''"
  "le32 0x20746d66 = map of_char ''fmt ''"
  "le32 0x61746164 = map of_char ''data''"
  by (simp_all add: le32_def)

lemma write_header_ok:
  "write_header b (int (d + 44)) (hdr_state [] (d + 44)) = Inr (hdr_state (wav_header b (d + 44)) d)"
proof -
  have i3: "int (sampleRate b) * 2 * int (numberOfChannels b) = int (sampleRate b * numberOfChannels b * 2)" by simp
  have i4: "int (numberOfChannels b) * 2 = int (numberOfChannels b * 2)" by simp
  have i1: "int (d + 44) - 8 = int (d + 44 - 8)" by simp
  have i2: "int (d + 44) - 40 - 4 = int (d + 44 - 44)" by simp
  show ?thesis
    unfolding write_header_def wav_header_def i1 i3 i4
    by (simp add: setUint32_hdr setUint16_hdr pos_hdr_state magic i2 del: of_nat_mult of_nat_add of_nat_diff map_eq_Cons_conv)
qed

lemma push_channels_ok:
  assumes "numberOfChannels b \<le> length (channelData b)" and "i \<le> numberOfChannels b"
  shows "push_channels b i acc = Inr (acc @ drop i (take (numberOfChannels b) (channelData b)))"
  using assms
proof (induction b i acc rule: push_channels.induct)
  case (1 b i acc)
  let ?n = "numberOfChannels b"
  show ?case
  proof (cases "i < ?n")
    case False
    with "1.prems" show ?thesis by (subst push_channels.simps) simp
  next
    case True
    with "1.prems" have g: "getChannelData b i = Inr (channelData b ! i)"
      by (simp add: getChannelData_def)
    from True "1.prems" have d: "drop i (take ?n (channelData b)) =
        channelData b ! i # drop (Suc i) (take ?n (channelData b))"
      by (simp add: Cons_nth_drop_Suc [symmetric])
    from True "1.prems" have "push_channels b (i + 1) (acc @ [channelData b ! i]) =
        Inr ((acc @ [channelData b ! i]) @ drop (i + 1) (take ?n (channelData b)))"
      by (intro "1.IH" [OF True g]) auto
    with True g d show ?thesis by (simp add: push_channels.simps [of b i acc])
  qed
qed

text \<open>
  The whole run on a buffer that has one array per channel. The header leaves \<^verbatim>\<open>pos\<close>
  at 44, and the frame loop goes on from there: the data section holds the frames from 44
  onwards, interleaved, followed by zeros in place of the frames that were skipped. A
  buffer of at most 44 frames gives a data section of zeros only.
\<close>

lemma encode_run_ok:
  assumes "length (channelData b) = numberOfChannels b"
  shows "encode_run b =
    Inr \<lparr>view = wav_header b (length_frames b * numberOfChannels b * 2 + 44)
                 @ data_bytes (channelData b) (numberOfChannels b) 44 (length_frames b)
                 @ replicate (2 * numberOfChannels b * min 44 (length_frames b)) 0,
         pos = max 44 (length_frames b),
         offset = 2 * numberOfChannels b * (length_frames b - 44),
         reads = frame_reads (numberOfChannels b) 44 (length_frames b)\<rparr>"
proof -
  let ?n = "numberOfChannels b" and ?L = "length_frames b"
  let ?d = "?L * ?n * 2"
  let ?H = "wav_header b (?d + 44)"
  have pc: "push_channels b 0 [] = Inr (channelData b)"
    using push_channels_ok [of b 0 "[]"] assms by simp
  have st0: "\<lparr>view = replicate (?d + 44) 0, pos = 0, offset = 0, reads = []\<rparr> = hdr_state [] (?d + 44)"
    by (simp add: hdr_state_def)
  have le: "2 * ?n * (?L - 44) \<le> ?d"
    by (simp add: mult.commute)
  have fl: "frames_loop b (channelData b) ?n (hdr_state ?H ?d) =
      Inr ((hdr_state ?H ?d)\<lparr>view := take (44 + offset (hdr_state ?H ?d)) (view (hdr_state ?H ?d))
                            @ data_bytes (channelData b) ?n (pos (hdr_state ?H ?d)) ?L
                            @ drop (44 + offset (hdr_state ?H ?d) + 2 * ?n * (?L - pos (hdr_state ?H ?d))) (view (hdr_state ?H ?d)),
                   pos := max (pos (hdr_state ?H ?d)) ?L,
                   offset := offset (hdr_state ?H ?d) + 2 * ?n * (?L - pos (hdr_state ?H ?d)),
                   reads := reads (hdr_state ?H ?d) @ frame_reads ?n (pos (hdr_state ?H ?d)) ?L\<rparr>)"
    using assms le by (intro frames_loop_ok) (simp_all add: hdr_state_def)
  have rest: "?d - 2 * ?n * (?L - 44) = 2 * ?n * min 44 ?L"
  proof -
    have "?d = 2 * ?n * ?L" by simp
    also have "\<dots> - 2 * ?n * (?L - 44) = 2 * ?n * (?L - (?L - 44))"
      by (simp only: diff_mult_distrib2)
    finally show ?thesis by (simp add: min_def)
  qed
  show ?thesis
    unfolding encode_run_def Let_def st0 write_header_ok pc
    by (simp add: fl) (simp add: hdr_state_def rest)
qed

lemma audioBufferToWav_ok:
  assumes "length (channelData b) = numberOfChannels b"
  shows "audioBufferToWav b =
    Inr \<lparr>blob_bytes = wav_header b (length_frames b * numberOfChannels b * 2 + 44)
                 @ data_bytes (channelData b) (numberOfChannels b) 44 (length_frames b)
                 @ replicate (2 * numberOfChannels b * min 44 (length_frames b)) 0,
         blob_type = ''audio/wav''\<rparr>"
  by (simp add: audioBufferToWav_def encode_run_ok [OF assms])

lemma data_length:
  "2 * n * (L - 44) + 2 * n * min 44 L = L * n * (2::nat)"
proof -
  have "2 * n * (L - 44) + 2 * n * min 44 L = 2 * n * ((L - 44) + min 44 L)"
    by (simp only: distrib_left)
  also have "(L - 44) + min 44 L = L" by (simp add: min_def)
  finally show ?thesis by (simp add: mult.commute)
qed

lemma bytes_at_append:
  "off + n \<le> length xs \<Longrightarrow> bytes_at off n (xs @ ys) = bytes_at off n xs"
  by (simp add: bytes_at_def)

lemma header_fields:
  "bytes_at 0 4 (wav_header b len) = map of_char ''RIFF''"
  "bytes_at 4 4 (wav_header b len) = le32 (of_nat (len - 8))"
  "bytes_at 8 4 (wav_header b len) = map of_char ''WAVE''"
  "bytes_at 12 4 (wav_header b len) = map of_char ''fmt ''"
  "bytes_at 16 4 (wav_header b len) = le32 16"
  "bytes_at 20 2 (wav_header b len) = le16 1"
  "bytes_at 22 2 (wav_header b len) = le16 (of_nat (numberOfChannels b))"
  "bytes_at 24 4 (wav_header b len) = le32 (of_nat (sampleRate b))"
  "bytes_at 28 4 (wav_header b len) = le32 (of_nat (sampleRate b * numberOfChannels b * 2))"
  "bytes_at 32 2 (wav_header b len) = le16 (of_nat (numberOfChannels b * 2))"
  "bytes_at 34 2 (wav_header b len) = le16 16"
  "bytes_at 36 4 (wav_header b len) = map of_char ''data''"
  "bytes_at 40 4 (wav_header b len) = le32 (of_nat (len - 44))"
  by (simp_all add: bytes_at_def wav_header_def del: of_nat_mult of_nat_add of_nat_diff)

section \<open>The encoder in the store, step by step\<close>

lemma buffer_at_last [simp]: "buffer_at (h @ [x]) (length h) = x"
  by (simp add: buffer_at_def)

lemma buffer_at_append [simp]: "a < length h \<Longrightarrow> buffer_at (h @ h') a = buffer_at h a"
  by (simp add: buffer_at_def nth_append)

lemma DataView_store_sim:
  assumes "sim h s st"
  shows "DataView_store (bufferArr s) p bs (memory s) =
     (case store_bytes p bs (view st) of Inl e \<Rightarrow> Inl e | Inr v \<Rightarrow> Inr (h @ [Attached v]))"
  using assms by (simp add: sim_def DataView_store_def split: sum.splits)

lemma setUint16_sim:
  "sim h s st \<Longrightarrow> rel_sum (=) (sim h) (setUint16_store d s) (setUint16 d st)"
  by (simp add: setUint16_store_def setUint16_def DataView_store_sim split: sum.splits)
     (simp add: sim_def)

lemma setUint32_sim:
  "sim h s st \<Longrightarrow> rel_sum (=) (sim h) (setUint32_store d s) (setUint32 d st)"
  by (simp add: setUint32_store_def setUint32_def DataView_store_sim split: sum.splits)
     (simp add: sim_def)

lemma seqE_sim:
  assumes "list_all2 (\<lambda>f g. \<forall>s st. sim h s st \<longrightarrow> rel_sum (=) (sim h) (f s) (g st)) fs gs"
    and "sim h s st"
  shows "rel_sum (=) (sim h) (seqE fs s) (seqE gs st)"
  using assms
proof (induction fs gs arbitrary: s st rule: list_all2_induct)
  case Nil
  then show ?case by simp
next
  case (Cons f fs g gs)
  from Cons.hyps(1) Cons.prems have "rel_sum (=) (sim h) (f s) (g st)"
    by blast
  then show ?case
    by (cases "f s"; cases "g st") (auto intro: Cons.IH)
qed

lemma write_header_sim:
  assumes "sim h s st"
  shows "rel_sum (=) (sim h) (write_header_store b len s) (write_header b len st)"
  unfolding write_header_store_def write_header_def
  by (rule seqE_sim [OF _ assms]) (simp add: setUint16_sim setUint32_sim, simp add: sim_def setUint32_sim)


lemma write_sample_sim:
  "sim h s st \<Longrightarrow> rel_sum (=) (sim h) (write_sample_store channels i s) (write_sample channels i st)"
  by (simp add: write_sample_store_def write_sample_def DataView_store_sim Let_def
        split: option.splits sum.splits)
     (simp add: sim_def)

lemma interleave_sim:
  "sim h s st \<Longrightarrow> rel_sum (=) (sim h) (interleave_store channels n i s) (interleave channels n i st)"
proof (induction channels n i st arbitrary: s rule: interleave.induct)
  case (1 channels n i st)
  show ?case
  proof (cases "i < n")
    case False
    with "1.prems" show ?thesis
      by (simp add: interleave.simps [of channels n i st] interleave_store.simps [of channels n i s])
  next
    case True
    from write_sample_sim [OF "1.prems", of channels i] show ?thesis
    proof (cases rule: rel_sum.cases)
      case (1 e e')
      with True show ?thesis
        by (simp add: interleave.simps [of channels n i st] interleave_store.simps [of channels n i s])
    next
      case (2 s1 st1)
      from "1.IH" [OF True 2(2) 2(3)] True 2(1,2) show ?thesis
        by (simp add: interleave.simps [of channels n i st] interleave_store.simps [of channels n i s])
    qed
  qed
qed

lemma frames_loop_sim:
  "sim h s st \<Longrightarrow>
   rel_sum (=) (sim h) (frames_loop_store b channels n s) (frames_loop b channels n st)"
proof (induction b channels n st arbitrary: s rule: frames_loop.induct)
  case (1 b channels n st)
  from "1.prems" have p: "pos_now s = pos st"
    by (simp add: sim_def)
  show ?case
  proof (cases "pos st < length_frames b")
    case False
    with "1.prems" p show ?thesis
      by (simp add: frames_loop.simps [of b channels n st] frames_loop_store.simps [of b channels n s])
  next
    case True
    from interleave_sim [OF "1.prems", of channels n 0] show ?thesis
    proof (cases rule: rel_sum.cases)
      case (1 e e')
      with True p show ?thesis
        by (simp add: frames_loop.simps [of b channels n st]
            frames_loop_store.simps [of b channels n s])
    next
      case (2 s1 st1)
      from 2(3) have "sim h (s1\<lparr>pos_now := pos_now s1 + 1\<rparr>) (st1\<lparr>pos := pos st1 + 1\<rparr>)"
        by (simp add: sim_def)
      from "1.IH" [OF True 2(2) this] True p 2(1,2) show ?thesis
        by (simp add: frames_loop.simps [of b channels n st]
            frames_loop_store.simps [of b channels n s])
    qed
  qed
qed

text \<open>
  An invocation in any store returns what the encoder computes on its own bytes, and leaves
  the store it found with one more buffer, the one behind the \<^verbatim>\<open>Blob\<close>.
\<close>

lemma audioBufferToWav_store_eq:
  "audioBufferToWav_store b h =
     (case audioBufferToWav b of
        Inl e \<Rightarrow> Inl e
      | Inr blob \<Rightarrow> Inr (blob, h @ [Attached (blob_bytes blob)]))"
proof -
  let ?n = "numberOfChannels b"
  let ?len = "length_frames b * ?n * 2 + 44"
  let ?s0 = "\<lparr>memory = h @ [Attached (replicate ?len 0)], bufferArr = length h,
              pos_now = 0, offset_now = 0\<rparr>"
  let ?st0 = "\<lparr>view = replicate ?len 0, pos = 0, offset = 0, reads = []\<rparr>"
  have s0: "sim h ?s0 ?st0"
    by (simp add: sim_def)
  have hd: "rel_sum (=) (sim h) (write_header_store b (int ?len) ?s0) (write_header b (int ?len) ?st0)"
    by (rule write_header_sim [OF s0])
  from hd show ?thesis
  proof (cases rule: rel_sum.cases)
    case (1 e e')
    then show ?thesis
      by (simp add: audioBufferToWav_store_def audioBufferToWav_def encode_run_def
          new_ArrayBuffer_def Let_def)
  next
    case (2 s1 st1)
    show ?thesis
    proof (cases "push_channels b 0 []")
      case (Inl e)
      with 2(1,2) show ?thesis
        by (simp add: audioBufferToWav_store_def audioBufferToWav_def encode_run_def
            new_ArrayBuffer_def Let_def)
    next
      case pc: (Inr channels)
      from frames_loop_sim [OF 2(3), of b channels ?n] show ?thesis
      proof (cases rule: rel_sum.cases)
        case (1 e e')
        with 2(1,2) pc show ?thesis
          by (simp add: audioBufferToWav_store_def audioBufferToWav_def encode_run_def
              new_ArrayBuffer_def Let_def)
      next
        case fl: (2 s2 st2)
        from fl(3) have m: "memory s2 = h @ [Attached (view st2)]" and a: "bufferArr s2 = length h"
          by (simp_all add: sim_def)
        from 2(1,2) pc fl(1,2) show ?thesis
          by (simp add: audioBufferToWav_store_def audioBufferToWav_def encode_run_def
              new_ArrayBuffer_def Let_def m a new_Blob_def)
      qed
    qed
  qed
qed

section \<open>Properties of the encoder\<close>

text \<open>
  Claim C1. The encoder run on a one-channel buffer of 46 frames: 44 samples 0.25, then 1.0
  and -1.0. Converting every frame in order would start the data section with 44 times
  8191 (FF 1F) and end it with 32767 and -32768; the frame loop starts at frame 44: the
  data section starts with 32767 and -32768 (FF 7F 00 80), frames 0 to 43 are never
  converted, and 88 zero bytes fill the rest.
\<close>

theorem encoder_starts_at_frame_44:
  "audioBufferToWav \<lparr>sampleRate = 24000, numberOfChannels = 1, length_frames = 46,
                     channelData = [replicate 44 (Fin (1 / 4)) @ [Fin 1, Fin (- 1)]]\<rparr> =
   Inr \<lparr>blob_bytes =
          [82, 73, 70, 70, 128, 0, 0, 0, 87, 65, 86, 69, 102, 109, 116, 32, 16,
           0, 0, 0, 1, 0, 1, 0, 192, 93, 0, 0, 128, 187, 0, 0, 2, 0, 16, 0,
           100, 97, 116, 97, 92, 0, 0, 0]
          @ [0xFF, 0x7F, 0x00, 0x80] @ replicate 88 0,
        blob_type = ''audio/wav''\<rparr>"
proof -
  have r: "[44..<46] = [44, 45]"
    by (simp add: upt_conv_Cons)
  have n: "(replicate 44 (Fin (1 / 4)) @ [Fin 1, Fin (- 1)]) ! 44 = Fin 1"
    "(replicate 44 (Fin (1 / 4)) @ [Fin 1, Fin (- 1)]) ! 45 = Fin (- 1)"
    by (simp_all add: nth_append)
  have s: "scale (clamp (Fin 1)) = 32767" "scale (clamp (Fin (- 1))) = - 32768"
    by (simp_all add: scale_clamp_Fin quantize_def trunc_def)
  show ?thesis
    by (simp add: audioBufferToWav_ok wav_header_def data_bytes_def frame_bytes_def
        sample_bytes_def index_get_def r n s le32_def le16_def)
qed

text \<open>
  With two channels and one frame, 1.5 and -2.0, no sample is converted at all.
\<close>

lemma two_channels_one_frame:
  "audioBufferToWav \<lparr>sampleRate = 24000, numberOfChannels = 2, length_frames = 1,
                     channelData = [[Fin (3 / 2)], [Fin (- 2)]]\<rparr> =
   Inr \<lparr>blob_bytes =
        [82, 73, 70, 70, 40, 0, 0, 0, 87, 65, 86, 69, 102, 109, 116, 32, 16,
         0, 0, 0, 1, 0, 2, 0, 192, 93, 0, 0, 0, 119, 1, 0, 4, 0, 16, 0,
         100, 97, 116, 97, 4, 0, 0, 0, 0, 0, 0, 0],
        blob_type = ''audio/wav''\<rparr>"
proof -
  have z: "replicate 4 (0::byte) = [0, 0, 0, 0]"
    by (simp add: numeral_eq_Suc)
  show ?thesis
    by (simp add: audioBufferToWav_ok wav_header_def le32_def le16_def z)
qed

text \<open>
  Claim C2. On every valid sample buffer the first 44 bytes of the output are the RIFF/WAVE
  header, each field in little-endian order at its offset: "RIFF", the total length less 8,
  "WAVE", "fmt ", 16, 1, the channel count, the sample rate, the byte rate (sample rate times
  channel count times 2), the block alignment (channel count times 2), 16, "data", and the
  total length less 44. A field of two or four bytes holds its value as a 16-bit or 32-bit
  number.
\<close>

theorem encoder_header:
  assumes "valid_buffer b"
  shows "\<exists>blob. audioBufferToWav b = Inr blob \<and>
     (let bs = blob_bytes blob; len = length bs in
        bytes_at 0 4 bs = map of_char ''RIFF'' \<and>
        bytes_at 4 4 bs = le32 (of_nat (len - 8)) \<and>
        bytes_at 8 4 bs = map of_char ''WAVE'' \<and>
        bytes_at 12 4 bs = map of_char ''fmt '' \<and>
        bytes_at 16 4 bs = le32 16 \<and>
        bytes_at 20 2 bs = le16 1 \<and>
        bytes_at 22 2 bs = le16 (of_nat (numberOfChannels b)) \<and>
        bytes_at 24 4 bs = le32 (of_nat (sampleRate b)) \<and>
        bytes_at 28 4 bs = le32 (of_nat (sampleRate b * numberOfChannels b * 2)) \<and>
        bytes_at 32 2 bs = le16 (of_nat (numberOfChannels b * 2)) \<and>
        bytes_at 34 2 bs = le16 16 \<and>
        bytes_at 36 4 bs = map of_char ''data'' \<and>
        bytes_at 40 4 bs = le32 (of_nat (len - 44)))"
proof -
  from assms have n: "length (channelData b) = numberOfChannels b"
    by (simp add: valid_buffer_def)
  let ?len = "length_frames b * numberOfChannels b * 2 + 44"
  let ?rest = "data_bytes (channelData b) (numberOfChannels b) 44 (length_frames b)
                 @ replicate (2 * numberOfChannels b * min 44 (length_frames b)) 0"
  have len: "length (wav_header b ?len @ ?rest) = ?len"
    using data_length [of "numberOfChannels b" "length_frames b"] by simp
  show ?thesis
    unfolding audioBufferToWav_ok [OF n] Let_def
    by (rule exI [of _ "\<lparr>blob_bytes = wav_header b ?len @ ?rest, blob_type = ''audio/wav''\<rparr>"])
       (simp only: Blob.simps len bytes_at_append length_wav_header header_fields)
qed

theorem encoder_header_witness:
  "valid_buffer \<lparr>sampleRate = 24000, numberOfChannels = 1, length_frames = 3,
                 channelData = [[Fin 1, Fin (- 1), Fin 0]]\<rparr> \<and>
   (\<exists>blob. audioBufferToWav \<lparr>sampleRate = 24000, numberOfChannels = 1, length_frames = 3,
                 channelData = [[Fin 1, Fin (- 1), Fin 0]]\<rparr> = Inr blob \<and>
      bytes_at 0 4 (blob_bytes blob) = [0x52, 0x49, 0x46, 0x46] \<and>
      bytes_at 22 2 (blob_bytes blob) = [1, 0] \<and>
      bytes_at 24 4 (blob_bytes blob) = [0xC0, 0x5D, 0, 0] \<and>
      bytes_at 28 4 (blob_bytes blob) = [0x80, 0xBB, 0, 0] \<and>
      bytes_at 32 2 (blob_bytes blob) = [2, 0])"
proof -
  let ?b = "\<lparr>sampleRate = 24000, numberOfChannels = 1, length_frames = 3,
                 channelData = [[Fin 1, Fin (- 1), Fin 0]]\<rparr>"
  have v: "valid_buffer ?b"
    by (simp add: valid_buffer_def)
  show ?thesis
    using v encoder_header [OF v] by (auto simp: Let_def le32_def le16_def)
qed

text \<open>
  Claim C3. For every valid sample buffer the encoder returns a byte sequence whose length
  is exactly the number of frames times the number of channels times 2, plus 44.
\<close>

theorem encoder_output_length:
  assumes "valid_buffer b"
  shows "\<exists>blob. audioBufferToWav b = Inr blob \<and>
           length (blob_bytes blob) = length_frames b * numberOfChannels b * 2 + 44"
proof -
  from assms have "length (channelData b) = numberOfChannels b"
    by (simp add: valid_buffer_def)
  then show ?thesis
    using data_length [of "numberOfChannels b" "length_frames b"]
    by (simp add: audioBufferToWav_ok)
qed

theorem encoder_output_length_witness:
  "valid_buffer \<lparr>sampleRate = 24000, numberOfChannels = 1, length_frames = 3,
                     channelData = [[Fin 1, Fin (- 1), Fin 0]]\<rparr> \<and>
   (\<exists>blob. audioBufferToWav \<lparr>sampleRate = 24000, numberOfChannels = 1, length_frames = 3,
                     channelData = [[Fin 1, Fin (- 1), Fin 0]]\<rparr> = Inr blob \<and>
           length (blob_bytes blob) = 50)"
proof -
  have v: "valid_buffer \<lparr>sampleRate = 24000, numberOfChannels = 1, length_frames = 3,
                     channelData = [[Fin 1, Fin (- 1), Fin 0]]\<rparr>"
    by (simp add: valid_buffer_def)
  show ?thesis using v encoder_output_length [OF v] by simp
qed

text \<open>
  Claim C4. The encoder run on the buffer with sample rate 24000, one channel and the three
  samples 1.0, -1.0 and 0.0: the output has 50 bytes, and bytes 44 to 49 are all zero, where
  the samples 32767, -32768 and 0 (FF 7F 00 80 00 00) were to be.
\<close>

theorem c4_eval:
  "audioBufferToWav \<lparr>sampleRate = 24000, numberOfChannels = 1, length_frames = 3,
                     channelData = [[Fin 1, Fin (- 1), Fin 0]]\<rparr> =
   Inr \<lparr>blob_bytes =
        [82, 73, 70, 70, 42, 0, 0, 0, 87, 65, 86, 69, 102, 109, 116, 32, 16,
         0, 0, 0, 1, 0, 1, 0, 192, 93, 0, 0, 128, 187, 0, 0, 2, 0, 16, 0,
         100, 97, 116, 97, 6, 0, 0, 0, 0, 0, 0, 0, 0, 0],
        blob_type = ''audio/wav''\<rparr>"
proof -
  have z: "replicate 6 (0::byte) = [0, 0, 0, 0, 0, 0]"
    by (simp add: numeral_eq_Suc)
  show ?thesis
    by (simp add: audioBufferToWav_ok wav_header_def le32_def le16_def z)
qed

text \<open>
  Claim C8. On every valid sample buffer (a positive channel count, every channel holding
  exactly the number of frames) the encoder raises nothing and returns the whole byte
  sequence it allocated, and every read \<^verbatim>\<open>channels[i][pos]\<close> it makes is within bounds.
\<close>

theorem encoder_total:
  assumes "valid_buffer b"
  shows "\<exists>st. encode_run b = Inr st \<and>
           audioBufferToWav b = Inr \<lparr>blob_bytes = view st, blob_type = ''audio/wav''\<rparr> \<and>
           length (view st) = length_frames b * numberOfChannels b * 2 + 44 \<and>
           (\<forall>(i, q) \<in> set (reads st). i < length (channelData b) \<and> q < length (channelData b ! i))"
proof -
  from assms have n: "length (channelData b) = numberOfChannels b"
    and L: "\<And>i. i < numberOfChannels b \<Longrightarrow> length (channelData b ! i) = length_frames b"
    by (simp_all add: valid_buffer_def)
  show ?thesis
    using data_length [of "numberOfChannels b" "length_frames b"]
    by (auto simp: audioBufferToWav_def encode_run_ok [OF n] set_frame_reads n L)
qed

theorem encoder_total_witness:
  "valid_buffer \<lparr>sampleRate = 8000, numberOfChannels = 2, length_frames = 45,
                 channelData = [replicate 45 (Fin (1 / 4)), replicate 45 NaN]\<rparr> \<and>
   (\<exists>st. encode_run \<lparr>sampleRate = 8000, numberOfChannels = 2, length_frames = 45,
                 channelData = [replicate 45 (Fin (1 / 4)), replicate 45 NaN]\<rparr> = Inr st \<and>
         length (view st) = 224 \<and> reads st = [(0, 44), (1, 44)])"
proof -
  let ?b = "\<lparr>sampleRate = 8000, numberOfChannels = 2, length_frames = 45,
                 channelData = [replicate 45 (Fin (1 / 4)), replicate 45 NaN]\<rparr>"
  have v: "valid_buffer ?b"
    by (simp add: valid_buffer_def)
  have r: "frame_reads 2 44 45 = [(0, 44), (1, 44)]"
    by (simp add: frame_reads_def upt_conv_Cons numeral_eq_Suc)
  from encoder_total [OF v] obtain st where "encode_run ?b = Inr st" and "length (view st) = 224"
    by auto
  moreover have "reads st = [(0, 44), (1, 44)]"
    using \<open>encode_run ?b = Inr st\<close> r by (auto simp: encode_run_ok)
  ultimately show ?thesis using v by blast
qed

text \<open>
  Claim C9. Two invocations of the encoder on buffers that agree on the sample rate, the
  channel count, the frame count and the samples return the same bytes, or the same error,
  whatever the store holds when each of them starts: what earlier invocations and other
  code have left in memory has no part in the result, and the bytes that the loops do not
  write are the zeros of the fresh buffer. The common result is the one that the encoder
  computes on its own bytes.
\<close>

theorem encoder_deterministic:
  assumes "sampleRate b = sampleRate b'" and "numberOfChannels b = numberOfChannels b'"
    and "length_frames b = length_frames b'" and "channelData b = channelData b'"
  shows "map_sum id fst (audioBufferToWav_store b h) =
           map_sum id fst (audioBufferToWav_store b' h') \<and>
         map_sum id fst (audioBufferToWav_store b h) = audioBufferToWav b"
proof -
  from assms have "b = b'" by simp
  then show ?thesis
    by (simp add: audioBufferToWav_store_eq split: sum.splits)
qed

theorem encoder_deterministic_witness:
  "channelData \<lparr>sampleRate = 24000, numberOfChannels = 1, length_frames = 3,
                 channelData = [[Fin 1, Fin (- 1), Fin 0]]\<rparr> =
     channelData \<lparr>sampleRate = 12000 + 12000, numberOfChannels = 1, length_frames = 3,
                   channelData = [map Fin [1, - 1, 0]]\<rparr> \<and>
   map_sum id fst
     (audioBufferToWav_store
        \<lparr>sampleRate = 12000 + 12000, numberOfChannels = 1, length_frames = 3,
         channelData = [map Fin [1, - 1, 0]]\<rparr>
        [Attached (replicate 50 0xFF), Detached]) =
   map_sum id fst
     (audioBufferToWav_store
        \<lparr>sampleRate = 24000, numberOfChannels = 1, length_frames = 3,
         channelData = [[Fin 1, Fin (- 1), Fin 0]]\<rparr> []) \<and>
   map_sum id fst
     (audioBufferToWav_store
        \<lparr>sampleRate = 24000, numberOfChannels = 1, length_frames = 3,
         channelData = [[Fin 1, Fin (- 1), Fin 0]]\<rparr> []) =
   Inr \<lparr>blob_bytes =
        [82, 73, 70, 70, 42, 0, 0, 0, 87, 65, 86, 69, 102, 109, 116, 32, 16,
         0, 0, 0, 1, 0, 1, 0, 192, 93, 0, 0, 128, 187, 0, 0, 2, 0, 16, 0,
         100, 97, 116, 97, 6, 0, 0, 0, 0, 0, 0, 0, 0, 0],
        blob_type = ''audio/wav''\<rparr>"
proof -
  let ?b = "\<lparr>sampleRate = 24000, numberOfChannels = 1, length_frames = 3,
             channelData = [[Fin 1, Fin (- 1), Fin 0]]\<rparr>"
  let ?b' = "\<lparr>sampleRate = 12000 + 12000, numberOfChannels = 1, length_frames = 3,
              channelData = [map Fin [1, - 1, 0]]\<rparr>"
  let ?h' = "[Attached (replicate 50 0xFF), Detached]"
  have 1: "sampleRate ?b = sampleRate ?b'" and 2: "numberOfChannels ?b = numberOfChannels ?b'"
    and 3: "length_frames ?b = length_frames ?b'" and 4: "channelData ?b = channelData ?b'"
    by simp_all
  note T = encoder_deterministic [OF 1 2 3 4, of "[]" ?h']
  have z: "replicate 6 (0::byte) = [0, 0, 0, 0, 0, 0]"
    by (simp add: numeral_eq_Suc)
  have v: "audioBufferToWav ?b =
    Inr \<lparr>blob_bytes =
        [82, 73, 70, 70, 42, 0, 0, 0, 87, 65, 86, 69, 102, 109, 116, 32, 16,
         0, 0, 0, 1, 0, 1, 0, 192, 93, 0, 0, 128, 187, 0, 0, 2, 0, 16, 0,
         100, 97, 116, 97, 6, 0, 0, 0, 0, 0, 0, 0, 0, 0],
        blob_type = ''audio/wav''\<rparr>"
    by (simp add: audioBufferToWav_ok wav_header_def le32_def le16_def z)
  from T [THEN conjunct1] have a: "map_sum id fst (audioBufferToWav_store ?b' ?h') =
      map_sum id fst (audioBufferToWav_store ?b [])"
    by (rule sym)
  from T [THEN conjunct2] v have b: "map_sum id fst (audioBufferToWav_store ?b []) =
    Inr \<lparr>blob_bytes =
        [82, 73, 70, 70, 42, 0, 0, 0, 87, 65, 86, 69, 102, 109, 116, 32, 16,
         0, 0, 0, 1, 0, 1, 0, 192, 93, 0, 0, 128, 187, 0, 0, 2, 0, 16, 0,
         100, 97, 116, 97, 6, 0, 0, 0, 0, 0, 0, 0, 0, 0],
        blob_type = ''audio/wav''\<rparr>"
    by (rule trans)
  from 4 a b show ?thesis by blast
qed

section \<open>The decoder, step by step\<close>

lemma fill_bytes_ok:
  assumes "heap = h @ [Attached bs]" and "a = length h" and "length bs = len"
    and "length s = len" and "i \<le> len"
  shows "fill_bytes s len i a heap = h @ [Attached (take i bs @ map of_char (drop i s))]"
  using assms
proof (induction s len i a heap arbitrary: bs rule: fill_bytes.induct)
  case (1 s len i a heap)
  show ?case
  proof (cases "i < len")
    case False
    with "1.prems" have "i = len" by simp
    with "1.prems" show ?thesis by (subst fill_bytes.simps) simp
  next
    case True
    let ?v = "of_char (s ! i) :: byte"
    from True "1.prems" have put: "Uint8Array_put a i (ToUint8 (charCodeAt s i)) heap
        = h @ [Attached (bs[i := ?v])]"
      by (simp add: Uint8Array_put_def charCodeAt_def of_nat_of_char)
    from True "1.prems" have t: "take (Suc i) (bs[i := ?v]) = take i bs @ [?v]"
      by (simp add: take_Suc_conv_app_nth)
    from True "1.prems" have d: "drop i s = s ! i # drop (Suc i) s"
      by (simp add: Cons_nth_drop_Suc)
    have "fill_bytes s len (i + 1) a (Uint8Array_put a i (ToUint8 (charCodeAt s i)) heap)
        = h @ [Attached (take (i + 1) (bs[i := ?v]) @ map of_char (drop (i + 1) s))]"
      using True "1.prems" put by (intro "1.IH" [OF True]) auto
    then show ?thesis
      using True by (subst fill_bytes.simps) (simp add: t d)
  qed
qed

lemma length_Int16Array_of [simp]: "length (Int16Array_of bs) = length bs div 2"
  by (induction bs rule: Int16Array_of.induct) auto

lemma rescale_loop_ok:
  assumes "length fs = length xs" and "i \<le> length xs"
  shows "rescale_loop xs i fs = take i fs @ map rescale (drop i xs)"
  using assms
proof (induction xs i fs rule: rescale_loop.induct)
  case (1 xs i fs)
  show ?case
  proof (cases "i < length xs")
    case False
    with "1.prems" show ?thesis by (subst rescale_loop.simps) simp
  next
    case True
    from True "1.prems" have t: "take (Suc i) (fs[i := rescale (xs ! i)]) = take i fs @ [rescale (xs ! i)]"
      by (simp add: take_Suc_conv_app_nth)
    from True have d: "drop i xs = xs ! i # drop (Suc i) xs"
      by (simp add: Cons_nth_drop_Suc)
    have "rescale_loop xs (i + 1) (if i < length fs then fs[i := rescale (xs ! i)] else fs)
        = take (i + 1) (if i < length fs then fs[i := rescale (xs ! i)] else fs)
            @ map rescale (drop (i + 1) xs)"
      using True "1.prems" by (intro "1.IH" [OF True]) auto
    then show ?thesis
      using True "1.prems" by (subst rescale_loop.simps) (simp add: t d)
  qed
qed

lemma signed16:
  fixes u :: int
  assumes "0 \<le> u" and "u < 65536"
  shows "(u + 32768) mod 65536 - 32768 = (if u < 32768 then u else u - 65536)"
proof (cases "u < 32768")
  case True
  with assms have "(u + 32768) mod 65536 = u + 32768"
    by (simp add: mod_pos_pos_trivial)
  with True show ?thesis by simp
next
  case False
  have e: "u + 32768 = (u - 32768) + 65536"
    by simp
  have "(u + 32768) mod 65536 = (u - 32768) mod 65536"
    unfolding e by (simp only: mod_add_self2)
  also from False assms have "\<dots> = u - 32768"
    by (simp add: mod_pos_pos_trivial)
  finally show ?thesis using False by simp
qed

lemma uint_pair:
  fixes hi lo :: byte
  shows "uint (push_bit 8 (ucast hi) OR ucast lo :: 16 word) = uint lo + 256 * uint hi"
proof -
  have b: "uint lo < 256" "uint hi < 256" "0 \<le> uint lo" "0 \<le> uint hi"
    using uint_lt2p [of lo] uint_lt2p [of hi] by simp_all
  have c: "concat_bit 8 (uint lo) (uint hi) = uint lo + 256 * uint hi"
    using b by (simp add: concat_bit_eq take_bit_eq_mod push_bit_eq_mult)
  have "push_bit 8 (ucast hi) OR ucast lo = (word_cat hi lo :: 16 word)"
    by (simp add: word_cat_eq_push_bit_or)
  also have "\<dots> = word_of_int (concat_bit 8 (uint lo) (uint hi))"
    by (subst word_cat_eq') simp
  finally have "uint (push_bit 8 (ucast hi) OR ucast lo :: 16 word)
      = (uint lo + 256 * uint hi) mod 2 ^ 16"
    by (simp only: c uint_word_of_int) simp
  with b show ?thesis by simp
qed

lemma sint_pair:
  fixes hi lo :: byte
  shows "sint (push_bit 8 (ucast hi) OR ucast lo :: 16 word) = int16_le lo hi"
proof -
  let ?w = "push_bit 8 (ucast hi) OR ucast lo :: 16 word"
  let ?u = "uint lo + 256 * uint hi"
  have b: "0 \<le> ?u" "?u < 65536"
    using uint_lt2p [of lo] uint_lt2p [of hi] by simp_all
  have "sint ?w = signed_take_bit 15 (uint ?w)"
    by (simp add: sint_uint)
  also have "\<dots> = (?u + 32768) mod 65536 - 32768"
    by (simp add: uint_pair signed_take_bit_eq_take_bit_shift take_bit_eq_mod)
  also have "\<dots> = (if ?u < 32768 then ?u else ?u - 65536)"
    using b by (rule signed16)
  finally show ?thesis
    by (simp add: int16_le_def Let_def)
qed

lemma Int16Array_of_nth:
  "k < length bs div 2 \<Longrightarrow>
   Int16Array_of bs ! k = push_bit 8 (ucast (bs ! (2 * k + 1))) OR ucast (bs ! (2 * k))"
proof (induction bs arbitrary: k rule: Int16Array_of.induct)
  case (1 lo hi rest)
  then show ?case by (cases k) auto
qed auto

lemma samples_eq:
  "map rescale (Int16Array_of bs) =
   map (\<lambda>k. Fin (of_int (int16_le (bs ! (2 * k)) (bs ! (2 * k + 1))) / 32768)) [0..<length bs div 2]"
  by (rule nth_equalityI) (simp_all add: rescale_def Int16Array_of_nth sint_pair)

lemma manualPCMDecode_ok:
  assumes "buffer_at h a = Attached bs" and "even (length bs)" and "bs \<noteq> []"
  shows "manualPCMDecode a ctx h =
     Inr \<lparr>sampleRate = 24000, numberOfChannels = 1, length_frames = length bs div 2,
          channelData = [map rescale (Int16Array_of bs)]\<rparr>"
proof -
  from assms(2,3) have pos: "0 < length bs div 2"
    by (cases bs) (auto elim!: evenE)
  have loop: "rescale_loop (Int16Array_of bs) 0 (replicate (length bs div 2) (Fin 0))
      = map rescale (Int16Array_of bs)"
    using rescale_loop_ok [of "replicate (length bs div 2) (Fin 0)" "Int16Array_of bs" 0] by simp
  from pos have cb: "createBuffer ctx (Suc 0) (length bs div 2) 24000 =
      Inr \<lparr>sampleRate = 24000, numberOfChannels = 1, length_frames = length bs div 2,
           channelData = replicate 1 (replicate (length bs div 2) (Fin 0))\<rparr>"
    by (simp add: createBuffer_def)
  show ?thesis
    using assms(1,2)
    by (simp add: manualPCMDecode_def loop cb channel0_set_def getChannelData_def)
qed

lemma manualPCMDecode_odd:
  assumes "buffer_at h a = Attached bs" and "odd (length bs)"
  shows "manualPCMDecode a ctx h = Inl RangeError"
  using assms by (simp add: manualPCMDecode_def)

text \<open>
  Had the platform decoder been handed the buffer of \<^verbatim>\<open>bytes\<close> itself, the fallback
  would meet a detached buffer and raise.
\<close>

lemma manualPCMDecode_detached:
  assumes "buffer_at h a = Detached"
  shows "manualPCMDecode a ctx h = Inl TypeError"
  using assms by (simp add: manualPCMDecode_def)

lemma manualPCMDecode_cong:
  "buffer_at h a = buffer_at h' a' \<Longrightarrow> manualPCMDecode a ctx h = manualPCMDecode a' ctx h'"
  by (simp add: manualPCMDecode_def)

lemma decodeAudioData_ok:
  assumes "atob base64Data = Inr payload"
  shows "decodeAudioData base64Data ctx h =
     (let bs = map of_char payload;
          h' = h @ [Attached bs, if detaches ctx then Detached else Attached bs]
      in (case decode_result ctx bs of
            Inr buffer \<Rightarrow> Inr buffer
          | Inl e \<Rightarrow> manualPCMDecode (length h) ctx h', h'))"
proof -
  let ?bs = "map of_char payload :: byte list"
  have fill: "fill_bytes payload (length payload) 0 (length h) (h @ [Attached (replicate (length payload) 0)])
      = h @ [Attached ?bs]"
    using fill_bytes_ok [of "h @ [Attached (replicate (length payload) 0)]" h
        "replicate (length payload) 0" "length h" "length payload" payload 0]
    by simp
  have sl: "ArrayBuffer_slice (length h) (h @ [Attached ?bs]) =
      Inr (Suc (length h), h @ [Attached ?bs, Attached ?bs])"
    by (simp add: ArrayBuffer_slice_def)
  have at: "buffer_at (h @ [Attached ?bs, Attached ?bs]) (Suc (length h)) = Attached ?bs"
    by (simp add: buffer_at_def nth_append)
  have upd: "(h @ [Attached ?bs, Attached ?bs])[Suc (length h) := Detached] = h @ [Attached ?bs, Detached]"
    by (simp add: list_update_append)
  show ?thesis
    using assms
    by (simp add: decodeAudioData_def new_Uint8Array_def fill sl ctx_decodeAudioData_def at upd Let_def
        split: sum.splits)
qed

lemma decode_fst:
  assumes "atob base64Data = Inr payload"
  shows "fst (decodeAudioData base64Data ctx h) =
      (case decode_result ctx (map of_char payload) of
         Inr buffer \<Rightarrow> Inr buffer
       | Inl e \<Rightarrow> manualPCMDecode 0 ctx [Attached (map of_char payload)])"
proof -
  let ?bs = "map of_char payload :: byte list"
  have "manualPCMDecode (length h) ctx (h @ [Attached ?bs, c]) = manualPCMDecode 0 ctx [Attached ?bs]"
    for c
    by (rule manualPCMDecode_cong) (simp add: buffer_at_def nth_append)
  then show ?thesis
    by (simp add: decodeAudioData_ok [OF assms] Let_def split: sum.splits)
qed

lemma atob_example:
  "atob ''AEAAwA=='' = Inr [CHR 0x00, CHR 0x40, CHR 0x00, CHR 0xC0]"
  by (simp add: atob_def strip_padding_def ascii_whitespace_def b64_value_def char_of_def bit_Suc_0_iff)

lemma atob_example_odd:
  "atob ''AEAA'' = Inr [CHR 0x00, CHR 0x40, CHR 0x00]"
  by (simp add: atob_def strip_padding_def ascii_whitespace_def b64_value_def char_of_def bit_Suc_0_iff)

lemma manual_example:
  "manualPCMDecode 0
     \<lparr>decode_result = f, detaches = d, max_channels = 32, min_rate = 8000, max_rate = 96000\<rparr>
     [Attached [0x00, 0x40, 0x00, 0xC0]] =
   Inr \<lparr>sampleRate = 24000, numberOfChannels = 1, length_frames = 2,
        channelData = [[Fin (1 / 2), Fin (- (1 / 2))]]\<rparr>"
proof -
  let ?ctx = "\<lparr>decode_result = f, detaches = d, max_channels = 32, min_rate = 8000, max_rate = 96000\<rparr>"
  let ?bs = "[0x00, 0x40, 0x00, 0xC0] :: byte list"
  have "manualPCMDecode 0 ?ctx [Attached ?bs] =
     Inr \<lparr>sampleRate = 24000, numberOfChannels = 1, length_frames = length ?bs div 2,
          channelData = [map rescale (Int16Array_of ?bs)]\<rparr>"
    by (rule manualPCMDecode_ok) (simp_all add: buffer_at_def)
  then show ?thesis
    by (simp add: rescale_def)
qed

section \<open>Properties of the decoder\<close>

text \<open>
  Claim C5, amended. For every byte payload of even length that is not empty, the manual
  fallback returns a buffer of one channel at 24000 Hz whose frame count is the number of
  byte pairs; each sample is the little-endian signed 16-bit integer of its pair, divided
  by 32768. This holds on every audio context and in every store that holds the payload
  behind \<^verbatim>\<open>bytes\<close>.
\<close>

theorem manual_decode_samples:
  assumes "buffer_at h bytes = Attached bs" and "bs \<noteq> []" and "even (length bs)"
  shows "manualPCMDecode bytes ctx h =
     Inr \<lparr>sampleRate = 24000, numberOfChannels = 1, length_frames = length bs div 2,
          channelData =
            [map (\<lambda>k. Fin (of_int (int16_le (bs ! (2 * k)) (bs ! (2 * k + 1))) / 32768))
               [0..<length bs div 2]]\<rparr>"
  using manualPCMDecode_ok [OF assms(1) assms(3) assms(2)]
  by (simp only: samples_eq)

text \<open>
  The payload of the int16 pair 16384, -16384 gives the two samples 0.5 and -0.5.
\<close>

theorem manual_decode_samples_witness:
  "buffer_at [Attached [0x00, 0x40, 0x00, 0xC0]] 0 = Attached [0x00, 0x40, 0x00, 0xC0] \<and>
   [0x00, 0x40, 0x00, 0xC0 :: byte] \<noteq> [] \<and>
   even (length [0x00, 0x40, 0x00, 0xC0 :: byte]) \<and>
   manualPCMDecode 0
     \<lparr>decode_result = (\<lambda>bs. Inl EncodingError), detaches = True,
      max_channels = 32, min_rate = 8000, max_rate = 96000\<rparr>
     [Attached [0x00, 0x40, 0x00, 0xC0]] =
   Inr \<lparr>sampleRate = 24000, numberOfChannels = 1, length_frames = 2,
        channelData = [[Fin (1 / 2), Fin (- (1 / 2))]]\<rparr>"
proof -
  let ?ctx = "\<lparr>decode_result = (\<lambda>bs. Inl EncodingError), detaches = True,
               max_channels = 32, min_rate = 8000, max_rate = 96000\<rparr>"
  let ?bs = "[0x00, 0x40, 0x00, 0xC0] :: byte list"
  have a: "buffer_at [Attached ?bs] 0 = Attached ?bs"
    by (simp add: buffer_at_def)
  have n: "?bs \<noteq> []" and e: "even (length ?bs)"
    by simp_all
  show ?thesis
    using a n e manual_decode_samples [OF a n e, of ?ctx]
    by (simp add: int16_le_def upt_conv_Cons)
qed

text \<open>
  The claim as stated fails on the empty payload, which has even length: the fallback
  raises NotSupportedError there.
\<close>

theorem manual_decode_empty_counterexample:
  "even (length ([] :: byte list)) \<and>
   manualPCMDecode 0
     \<lparr>decode_result = (\<lambda>bs. Inl EncodingError), detaches = True,
      max_channels = 32, min_rate = 8000, max_rate = 96000\<rparr>
     [Attached []] = Inl NotSupportedError"
  by (simp add: manualPCMDecode_def buffer_at_def rescale_loop.simps [of "[]"] createBuffer_def)

text \<open>
  Claim C6. When \<^verbatim>\<open>atob\<close> has produced the payload, the decoder returns what the
  platform's container decoder returns on these bytes if that succeeds, and otherwise what
  the manual fallback returns on them; it fails only if both fail, and then with the
  fallback's error, for instance a RangeError on a payload of odd length.
\<close>

theorem decode_fallback:
  assumes "atob base64Data = Inr payload"
  shows "(let bs = map of_char payload;
              first = decode_result ctx bs;
              second = manualPCMDecode 0 ctx [Attached bs];
              r = fst (decodeAudioData base64Data ctx h)
          in r = (case first of Inr buffer \<Rightarrow> Inr buffer | Inl e \<Rightarrow> second) \<and>
             (\<forall>e. r = Inl e \<longrightarrow> (\<exists>e1. first = Inl e1) \<and> second = Inl e) \<and>
             ((\<exists>e1. first = Inl e1) \<and> odd (length bs) \<longrightarrow> r = Inl RangeError))"
proof -
  let ?bs = "map of_char payload :: byte list"
  have odd: "odd (length ?bs) \<Longrightarrow> manualPCMDecode 0 ctx [Attached ?bs] = Inl RangeError"
    by (rule manualPCMDecode_odd [of _ _ ?bs]) (simp_all add: buffer_at_def)
  show ?thesis
    unfolding Let_def decode_fst [OF assms]
    using odd by (auto split: sum.splits)
qed

theorem decode_fallback_witness:
  "atob ''AEAAwA=='' = Inr [CHR 0x00, CHR 0x40, CHR 0x00, CHR 0xC0] \<and>
   fst (decodeAudioData ''AEAAwA==''
          \<lparr>decode_result = (\<lambda>bs. Inl EncodingError), detaches = True,
           max_channels = 32, min_rate = 8000, max_rate = 96000\<rparr> []) =
     Inr \<lparr>sampleRate = 24000, numberOfChannels = 1, length_frames = 2,
          channelData = [[Fin (1 / 2), Fin (- (1 / 2))]]\<rparr> \<and>
   atob ''AEAA'' = Inr [CHR 0x00, CHR 0x40, CHR 0x00] \<and>
   fst (decodeAudioData ''AEAA''
          \<lparr>decode_result = (\<lambda>bs. Inl EncodingError), detaches = True,
           max_channels = 32, min_rate = 8000, max_rate = 96000\<rparr> []) = Inl RangeError"
proof -
  let ?ctx = "\<lparr>decode_result = (\<lambda>bs. Inl EncodingError), detaches = True,
           max_channels = 32, min_rate = 8000, max_rate = 96000\<rparr>"
  have 1: "fst (decodeAudioData ''AEAAwA=='' ?ctx []) =
     Inr \<lparr>sampleRate = 24000, numberOfChannels = 1, length_frames = 2,
          channelData = [[Fin (1 / 2), Fin (- (1 / 2))]]\<rparr>"
    using decode_fallback [OF atob_example, of ?ctx "[]", unfolded Let_def, THEN conjunct1]
    by (simp add: manual_example)
  have 2: "fst (decodeAudioData ''AEAA'' ?ctx []) = Inl RangeError"
    using decode_fallback [OF atob_example_odd, of ?ctx "[]", unfolded Let_def,
        THEN conjunct2, THEN conjunct2]
    by simp
  from 1 2 atob_example atob_example_odd show ?thesis by blast
qed

text \<open>
  Claim C7, amended. On the empty payload the rescale loop of the manual fallback runs
  zero times, so nothing is divided; the fallback then asks the audio context for a buffer
  of one channel and 0 frames at 24000 Hz and returns what it gets, and
  \<^verbatim>\<open>createBuffer\<close> refuses a length of 0 with a NotSupportedError.
\<close>

theorem manual_decode_empty:
  assumes "buffer_at h bytes = Attached []"
  shows "rescale_loop (Int16Array_of []) 0 (replicate (length (Int16Array_of [])) (Fin 0)) = [] \<and>
         manualPCMDecode bytes ctx h = createBuffer ctx 1 0 24000 \<and>
         createBuffer ctx 1 0 24000 = Inl NotSupportedError"
  using assms
  by (simp add: manualPCMDecode_def rescale_loop.simps [of "[]"] createBuffer_def)

theorem manual_decode_empty_witness:
  "buffer_at [Attached [1, 2], Attached []] 1 = Attached [] \<and>
   manualPCMDecode 1
     \<lparr>decode_result = (\<lambda>bs. Inl EncodingError), detaches = False,
      max_channels = 32, min_rate = 3000, max_rate = 768000\<rparr>
     [Attached [1, 2], Attached []] = Inl NotSupportedError"
proof -
  have a: "buffer_at [Attached [1, 2], Attached []] 1 = Attached []"
    by (simp add: buffer_at_def)
  show ?thesis
    using a manual_decode_empty [OF a] by simp
qed

text \<open>
  The claim as stated fails: on the empty payload the fallback does not return a buffer
  of 0 frames, it raises the error that \<^verbatim>\<open>createBuffer\<close> raises.
\<close>

theorem zero_frames_counterexample:
  "createBuffer
     \<lparr>decode_result = (\<lambda>bs. Inl EncodingError), detaches = True,
      max_channels = 32, min_rate = 8000, max_rate = 96000\<rparr> 1 0 24000 = Inl NotSupportedError \<and>
   manualPCMDecode 0
     \<lparr>decode_result = (\<lambda>bs. Inl EncodingError), detaches = True,
      max_channels = 32, min_rate = 8000, max_rate = 96000\<rparr>
     [Attached []] = Inl NotSupportedError"
  by (simp add: manualPCMDecode_def buffer_at_def rescale_loop.simps [of "[]"] createBuffer_def)

text \<open>
  Claim C10. The decoder leaves the buffers that existed before untouched and allocates
  two: the one behind \<^verbatim>\<open>bytes\<close>, which still holds the payload afterwards, and the copy
  handed to the platform decoder, which is the one that is detached. When the platform
  decoder fails, the fallback runs on the buffer behind \<^verbatim>\<open>bytes\<close> and so on the payload.
\<close>

theorem decode_copies_payload:
  assumes "atob base64Data = Inr payload"
  shows "snd (decodeAudioData base64Data ctx h) =
           h @ [Attached (map of_char payload),
                if detaches ctx then Detached else Attached (map of_char payload)] \<and>
         buffer_at (snd (decodeAudioData base64Data ctx h)) (length h) =
           Attached (map of_char payload) \<and>
         (\<forall>e. decode_result ctx (map of_char payload) = Inl e \<longrightarrow>
              fst (decodeAudioData base64Data ctx h) =
                manualPCMDecode (length h) ctx (snd (decodeAudioData base64Data ctx h)) \<and>
              fst (decodeAudioData base64Data ctx h) =
                manualPCMDecode 0 ctx [Attached (map of_char payload)])"
proof -
  let ?bs = "map of_char payload :: byte list"
  have m: "manualPCMDecode (length h) ctx (h @ [Attached ?bs, c]) = manualPCMDecode 0 ctx [Attached ?bs]"
    for c
    by (rule manualPCMDecode_cong) (simp add: buffer_at_def nth_append)
  have a: "buffer_at (h @ [Attached ?bs, c]) (length h) = Attached ?bs" for c
    by (simp add: buffer_at_def nth_append)
  show ?thesis
    by (auto simp: decodeAudioData_ok [OF assms] Let_def m a)
qed

theorem decode_copies_payload_witness:
  "atob ''AEAAwA=='' = Inr [CHR 0x00, CHR 0x40, CHR 0x00, CHR 0xC0] \<and>
   snd (decodeAudioData ''AEAAwA==''
      \<lparr>decode_result = (\<lambda>bs. Inl EncodingError), detaches = True,
       max_channels = 32, min_rate = 8000, max_rate = 96000\<rparr> [Attached [7]]) =
     [Attached [7], Attached [0x00, 0x40, 0x00, 0xC0], Detached] \<and>
   fst (decodeAudioData ''AEAAwA==''
      \<lparr>decode_result = (\<lambda>bs. Inl EncodingError), detaches = True,
       max_channels = 32, min_rate = 8000, max_rate = 96000\<rparr> [Attached [7]]) =
     Inr \<lparr>sampleRate = 24000, numberOfChannels = 1, length_frames = 2,
          channelData = [[Fin (1 / 2), Fin (- (1 / 2))]]\<rparr>"
proof -
  let ?ctx = "\<lparr>decode_result = (\<lambda>bs. Inl EncodingError), detaches = True,
           max_channels = 32, min_rate = 8000, max_rate = 96000\<rparr>"
  let ?X = "decodeAudioData ''AEAAwA=='' ?ctx [Attached [7]]"
  note T = decode_copies_payload [OF atob_example, of ?ctx "[Attached [7]]"]
  have a: "snd ?X = [Attached [7], Attached [0x00, 0x40, 0x00, 0xC0], Detached]"
    using T [THEN conjunct1] by simp
  have "fst ?X = manualPCMDecode 0 ?ctx [Attached (map of_char [CHR 0x00, CHR 0x40, CHR 0x00, CHR 0xC0])]"
    using T [THEN conjunct2, THEN conjunct2, rule_format, of EncodingError, THEN conjunct2]
    by simp
  then have b: "fst ?X = Inr \<lparr>sampleRate = 24000, numberOfChannels = 1, length_frames = 2,
          channelData = [[Fin (1 / 2), Fin (- (1 / 2))]]\<rparr>"
    by (simp add: manual_example)
  from atob_example a b show ?thesis by blast
qed

end
